theory Spec2Isabelle
  imports Main "HOL-Library.Word"
begin

section \<open>The VFS2 container codec of vfs2.py\<close>

text \<open>
  The development follows \<^verbatim>\<open>src/vfs2.py\<close>. Python integers are unbounded and are
  modelled as \<^typ>\<open>int\<close>; a \<^verbatim>\<open>bytes\<close> object is a list of 8-bit words; a \<^verbatim>\<open>str\<close> is a
  \<^typ>\<open>string\<close>, whose characters are the code points below 256 (a code point of 128 or
  more is rejected by the ASCII codec whatever its size). Every exception the code can
  raise is a value of \<open>error\<close>, and every function that touches a stream passes the
  stream explicitly and returns it, also when it raises.
\<close>

subsection \<open>Bytes, errors and streams\<close>

type_synonym byte = "8 word"
type_synonym bytes = "byte list"

datatype error =
    BadMagic             \<comment> \<open>\<^verbatim>\<open>ValueError('Bad magic number for vfs header')\<close>, line 84\<close>
  | ReadLength           \<comment> \<open>\<^verbatim>\<open>ValueError\<close> of a buffered \<^verbatim>\<open>read(n)\<close> with \<open>n < -1\<close>\<close>
  | OverflowError        \<comment> \<open>\<^verbatim>\<open>int.to_bytes\<close> on a value that does not fit\<close>
  | UnicodeDecodeError   \<comment> \<open>\<^verbatim>\<open>bytes.decode('ascii')\<close> on a byte of 128 or more\<close>
  | UnicodeEncodeError   \<comment> \<open>\<^verbatim>\<open>str.encode('ascii')\<close> on a code point of 128 or more\<close>
  | IndexError           \<comment> \<open>a list index out of range\<close>
  | ZlibError            \<comment> \<open>\<^verbatim>\<open>zlib.error\<close>\<close>
  | OSError              \<comment> \<open>a failed file-system call\<close>

text \<open>
  A computation on a state \<open>'s\<close> returns a value or raises, and in both cases leaves a
  state behind.
\<close>

type_synonym ('s, 'a) io = "'s \<Rightarrow> (error + 'a) \<times> 's"

definition io_return :: "'a \<Rightarrow> ('s, 'a) io" where
  "io_return x s = (Inr x, s)"

definition io_raise :: "error \<Rightarrow> ('s, 'a) io" where
  "io_raise e s = (Inl e, s)"

definition io_bind :: "('s, 'a) io \<Rightarrow> ('a \<Rightarrow> ('s, 'b) io) \<Rightarrow> ('s, 'b) io" where
  "io_bind m f s = (case m s of (Inl e, s') \<Rightarrow> (Inl e, s') | (Inr x, s') \<Rightarrow> f x s')"

text \<open>
  An input stream is the file's content and the cursor. The files are opened with
  \<^verbatim>\<open>open(vfs, 'rb')\<close>, a buffered reader: \<^verbatim>\<open>read(n)\<close> returns the next \<open>n\<close> bytes, or
  fewer at the end of the file, all the remaining bytes when \<open>n = -1\<close>, and raises
  \<^verbatim>\<open>ValueError\<close> when \<open>n < -1\<close>.
\<close>

type_synonym istream = "bytes \<times> nat"

definition stream_read :: "int \<Rightarrow> (istream, bytes) io" where
  "stream_read n s =
     (case s of (buf, cur) \<Rightarrow>
        if n < - 1 then (Inl ReadLength, s)
        else let bs = (if n = - 1 then drop cur buf else take (nat n) (drop cur buf))
             in (Inr bs, (buf, cur + length bs)))"

definition stream_tell :: "(istream, int) io" where
  "stream_tell s = (Inr (int (snd s)), s)"

text \<open>
  An output stream is a file opened with \<^verbatim>\<open>open(ovfs, 'wb')\<close> and written
  sequentially: its content so far, with the cursor at the end.
\<close>

type_synonym ostream = bytes

definition stream_write :: "bytes \<Rightarrow> (ostream, unit) io" where
  "stream_write bs out = (Inr (), out @ bs)"

definition ostream_tell :: "(ostream, int) io" where
  "ostream_tell out = (Inr (int (length out)), out)"

subsection \<open>Integers and strings (lines 30 to 48)\<close>

definition magic :: bytes where
  "magic = [0x56, 0x46, 0x53, 0x32]"

fun le_uint :: "bytes \<Rightarrow> int" where
  "le_uint [] = 0"
| "le_uint (b # bs) = uint b + 256 * le_uint bs"

text \<open>\<^verbatim>\<open>int.from_bytes(bs, 'little', signed=sg)\<close>, for any number of bytes.\<close>

definition int_from_bytes :: "bytes \<Rightarrow> bool \<Rightarrow> int" where
  "int_from_bytes bs sg =
     (let u = le_uint bs
      in if sg \<and> bs \<noteq> [] \<and> 2 ^ (8 * length bs - 1) \<le> u then u - 2 ^ (8 * length bs)
         else u)"

fun le_bytes :: "nat \<Rightarrow> int \<Rightarrow> bytes" where
  "le_bytes 0 v = []"
| "le_bytes (Suc n) v = word_of_int v # le_bytes n (v div 256)"

text \<open>\<^verbatim>\<open>value.to_bytes(4, 'little', signed=sg)\<close>.\<close>

definition int_to_bytes :: "int \<Rightarrow> bool \<Rightarrow> error + bytes" where
  "int_to_bytes v sg =
     (if sg then
        (if - (2 ^ 31) \<le> v \<and> v < 2 ^ 31 then Inr (le_bytes 4 v) else Inl OverflowError)
      else
        (if 0 \<le> v \<and> v < 2 ^ 32 then Inr (le_bytes 4 v) else Inl OverflowError))"

definition decode_ascii :: "bytes \<Rightarrow> error + string" where
  "decode_ascii bs =
     (if list_all (\<lambda>b. b < 128) bs then Inr (map (\<lambda>b. char_of (unat b)) bs)
      else Inl UnicodeDecodeError)"

definition encode_ascii :: "string \<Rightarrow> error + bytes" where
  "encode_ascii s =
     (if list_all (\<lambda>c. (of_char c :: nat) < 128) s
      then Inr (map (\<lambda>c. word_of_nat (of_char c)) s)
      else Inl UnicodeEncodeError)"

definition read_magic :: "(istream, bool) io" where
  "read_magic = io_bind (stream_read 4) (\<lambda>bs. io_return (bs = magic))"

definition write_magic :: "(ostream, unit) io" where
  "write_magic = stream_write magic"

definition read_int :: "bool \<Rightarrow> (istream, int) io" where
  "read_int sg = io_bind (stream_read 4) (\<lambda>bs. io_return (int_from_bytes bs sg))"

definition write_int :: "int \<Rightarrow> bool \<Rightarrow> (ostream, unit) io" where
  "write_int v sg =
     (case int_to_bytes v sg of Inl e \<Rightarrow> io_raise e | Inr bs \<Rightarrow> stream_write bs)"

definition read_str :: "(istream, string) io" where
  "read_str =
     io_bind (read_int False) (\<lambda>size.
     io_bind (stream_read size) (\<lambda>bs.
       case decode_ascii bs of Inl e \<Rightarrow> io_raise e | Inr s \<Rightarrow> io_return s))"

definition write_str :: "string \<Rightarrow> (ostream, unit) io" where
  "write_str s =
     io_bind (write_int (int (length s)) False) (\<lambda>_.
       case encode_ascii s of Inl e \<Rightarrow> io_raise e | Inr bs \<Rightarrow> stream_write bs)"

subsection \<open>Records (lines 12 to 28 and 50 to 80)\<close>

record VfsDir =
  dir_hash :: int
  dir_id :: int
  dir_parent :: int
  dir_from_dir :: int
  dir_from_file :: int

record VfsFile =
  file_hash :: int
  file_id :: int
  file_type :: int
  file_dir :: int
  file_offset :: int
  file_size :: int

definition read_dir :: "(istream, VfsDir) io" where
  "read_dir =
     io_bind (read_int False) (\<lambda>h.
     io_bind (read_int False) (\<lambda>i.
     io_bind (read_int True) (\<lambda>p.
     io_bind (read_int True) (\<lambda>fd.
     io_bind (read_int False) (\<lambda>ff.
       io_return \<lparr>dir_hash = h, dir_id = i, dir_parent = p, dir_from_dir = fd,
                  dir_from_file = ff\<rparr>)))))"

definition write_dir :: "VfsDir \<Rightarrow> (ostream, unit) io" where
  "write_dir d =
     io_bind (write_int (dir_hash d) False) (\<lambda>_.
     io_bind (write_int (dir_id d) False) (\<lambda>_.
     io_bind (write_int (dir_parent d) True) (\<lambda>_.
     io_bind (write_int (dir_from_dir d) True) (\<lambda>_.
       write_int (dir_from_file d) False))))"

definition read_file :: "(istream, VfsFile) io" where
  "read_file =
     io_bind (read_int False) (\<lambda>h.
     io_bind (read_int False) (\<lambda>i.
     io_bind (read_int False) (\<lambda>t.
     io_bind (read_int False) (\<lambda>d.
     io_bind (read_int False) (\<lambda>off.
     io_bind (read_int False) (\<lambda>sz.
       io_return \<lparr>file_hash = h, file_id = i, file_type = t, file_dir = d,
                  file_offset = off, file_size = sz\<rparr>))))))"

definition write_file :: "VfsFile \<Rightarrow> (ostream, unit) io" where
  "write_file f =
     io_bind (write_int (file_hash f) False) (\<lambda>_.
     io_bind (write_int (file_id f) False) (\<lambda>_.
     io_bind (write_int (file_type f) False) (\<lambda>_.
     io_bind (write_int (file_dir f) False) (\<lambda>_.
     io_bind (write_int (file_offset f) False) (\<lambda>_.
       write_int (file_size f) False)))))"

subsection \<open>The container (lines 82 to 118)\<close>

text \<open>\<^verbatim>\<open>for _ in range(n): xs.append(m(vfs))\<close>, for \<open>n\<close> read by \<open>read_int\<close> unsigned.\<close>

fun read_many :: "nat \<Rightarrow> ('s, 'a) io \<Rightarrow> ('s, 'a list) io" where
  "read_many 0 m = io_return []"
| "read_many (Suc n) m =
     io_bind m (\<lambda>x. io_bind (read_many n m) (\<lambda>xs. io_return (x # xs)))"

text \<open>\<^verbatim>\<open>for x in xs: w(vfs, x)\<close>.\<close>

fun write_each :: "('a \<Rightarrow> ('s, unit) io) \<Rightarrow> 'a list \<Rightarrow> ('s, unit) io" where
  "write_each w [] = io_return ()"
| "write_each w (x # xs) = io_bind (w x) (\<lambda>_. write_each w xs)"

type_synonym archive = "VfsDir list \<times> VfsFile list \<times> bytes \<times> string list \<times> string list"

text \<open>
  Line 95, \<^verbatim>\<open>blob = vfs.read(read_int(vfs) - vfs.tell())\<close>: the operands of the
  subtraction are evaluated from left to right, so \<^verbatim>\<open>tell()\<close> is the position after the
  four bytes of the end offset.
\<close>

definition read_blob :: "(istream, bytes) io" where
  "read_blob =
     io_bind (read_int False) (\<lambda>e.
     io_bind stream_tell (\<lambda>t.
       stream_read (e - t)))"

definition read_vfs :: "(istream, archive) io" where
  "read_vfs =
     io_bind read_magic (\<lambda>ok.
       if \<not> ok then io_raise BadMagic
       else
         io_bind (read_int False) (\<lambda>nd.
         io_bind (read_many (nat nd) read_dir) (\<lambda>dirs.
         io_bind (read_int False) (\<lambda>nf.
         io_bind (read_many (nat nf) read_file) (\<lambda>files.
         io_bind read_blob (\<lambda>blob.
         io_bind (read_int False) (\<lambda>nfn.
         io_bind (read_many (nat nfn) read_str) (\<lambda>fnames.
         io_bind (read_int False) (\<lambda>ndn.
         io_bind (read_many (nat ndn) read_str) (\<lambda>dnames.
           io_return (dirs, files, blob, fnames, dnames)))))))))))"

definition write_vfs :: "archive \<Rightarrow> (ostream, unit) io" where
  "write_vfs a =
     (case a of (dirs, files, blob, fnames, dnames) \<Rightarrow>
        io_bind write_magic (\<lambda>_.
        io_bind (write_int (int (length dirs)) False) (\<lambda>_.
        io_bind (write_each write_dir dirs) (\<lambda>_.
        io_bind (write_int (int (length files)) False) (\<lambda>_.
        io_bind (write_each write_file files) (\<lambda>_.
        io_bind ostream_tell (\<lambda>t.
        io_bind (write_int (int (length blob) + t + 4) False) (\<lambda>_.
        io_bind (stream_write blob) (\<lambda>_.
        io_bind (write_int (int (length files)) False) (\<lambda>_.
        io_bind (write_each write_str fnames) (\<lambda>_.
        io_bind (write_int (int (length dirs)) False) (\<lambda>_.
          write_each write_str dnames))))))))))))"

section \<open>Paths, the file system and zlib\<close>

text \<open>
  \<^verbatim>\<open>pathlib\<close> on a POSIX system. A path is its root (\<^verbatim>\<open>''\<close>, \<^verbatim>\<open>'/'\<close> or \<^verbatim>\<open>'//'\<close>) and its
  components; parsing a string splits it at the slashes and drops the empty components
  and the components \<^verbatim>\<open>'.'\<close>; joining with an absolute path gives that path.
\<close>

record pure_path =
  p_root :: string
  p_parts :: "string list"

fun split_slash :: "string \<Rightarrow> string list" where
  "split_slash [] = [[]]"
| "split_slash (c # cs) =
     (if c = CHR ''/'' then [] # split_slash cs
      else (case split_slash cs of [] \<Rightarrow> [[c]] | w # ws \<Rightarrow> (c # w) # ws))"

definition path_root :: "string \<Rightarrow> string" where
  "path_root s =
     (if take 2 s = ''//'' \<and> take 3 s \<noteq> ''///'' then ''//''
      else if take 1 s = ''/'' then ''/'' else '''')"

text \<open>\<^verbatim>\<open>Path(s)\<close>.\<close>

definition parse_path :: "string \<Rightarrow> pure_path" where
  "parse_path s =
     \<lparr>p_root = path_root s,
      p_parts = filter (\<lambda>w. w \<noteq> '''' \<and> w \<noteq> ''.'') (split_slash s)\<rparr>"

text \<open>\<^verbatim>\<open>p.joinpath(q)\<close> for a path \<open>q\<close>, and \<^verbatim>\<open>p / s\<close> for a string \<open>s\<close>.\<close>

definition joinpath :: "pure_path \<Rightarrow> pure_path \<Rightarrow> pure_path" where
  "joinpath p q =
     (if p_root q \<noteq> '''' then q
      else \<lparr>p_root = p_root p, p_parts = p_parts p @ p_parts q\<rparr>)"

definition path_join :: "pure_path \<Rightarrow> string \<Rightarrow> pure_path" where
  "path_join p s = joinpath p (parse_path s)"



text \<open>
  The file system is a map from paths to nodes. A path without components (the current
  directory or the root) is a directory. Components \<^verbatim>\<open>'..'\<close> and symbolic links are not
  resolved: two paths are the same file when they are the same path. Every failure of a
  file-system call is the one error \<open>OSError\<close>.
\<close>

datatype node = Dir | File bytes

type_synonym filesystem = "pure_path \<Rightarrow> node option"

definition node_at :: "filesystem \<Rightarrow> pure_path \<Rightarrow> node option" where
  "node_at fs p = (if p_parts p = [] then Some Dir else fs p)"

definition parent_path :: "pure_path \<Rightarrow> pure_path" where
  "parent_path p = p\<lparr>p_parts := butlast (p_parts p)\<rparr>"

definition ancestors :: "pure_path \<Rightarrow> pure_path list" where
  "ancestors p = map (\<lambda>k. p\<lparr>p_parts := take k (p_parts p)\<rparr>) [1..<Suc (length (p_parts p))]"

fun mkdirs :: "pure_path list \<Rightarrow> (filesystem, unit) io" where
  "mkdirs [] fs = (Inr (), fs)"
| "mkdirs (q # qs) fs =
     (case node_at fs q of
        Some (File _) \<Rightarrow> (Inl OSError, fs)
      | _ \<Rightarrow> mkdirs qs (fs(q \<mapsto> Dir)))"

text \<open>\<^verbatim>\<open>p.mkdir(parents=True, exist_ok=True)\<close>: from the top, down to \<open>p\<close> itself.\<close>

definition mkdir_p :: "pure_path \<Rightarrow> (filesystem, unit) io" where
  "mkdir_p p = mkdirs (ancestors p)"

text \<open>\<^verbatim>\<open>p.write_bytes(data)\<close>: the parent must be a directory and \<open>p\<close> must not be one.\<close>

definition write_bytes :: "pure_path \<Rightarrow> bytes \<Rightarrow> (filesystem, unit) io" where
  "write_bytes p data fs =
     (case node_at fs p of
        Some Dir \<Rightarrow> (Inl OSError, fs)
      | _ \<Rightarrow>
          (case node_at fs (parent_path p) of
             Some Dir \<Rightarrow> (Inr (), fs(p \<mapsto> File data))
           | _ \<Rightarrow> (Inl OSError, fs)))"

text \<open>\<^verbatim>\<open>p.read_bytes()\<close>, and the content that \<^verbatim>\<open>open(p, 'rb')\<close> gives to read.\<close>

definition read_bytes :: "filesystem \<Rightarrow> pure_path \<Rightarrow> error + bytes" where
  "read_bytes fs p = (case node_at fs p of Some (File d) \<Rightarrow> Inr d | _ \<Rightarrow> Inl OSError)"

text \<open>
  \<^verbatim>\<open>zlib.compress(data, level)\<close> and \<^verbatim>\<open>zlib.decompress(data, bufsize=n)\<close> are library
  functions: they are parameters \<open>zc\<close> and \<open>zd\<close> of everything below.
\<close>

type_synonym zcompress = "bytes \<Rightarrow> int \<Rightarrow> bytes"
type_synonym zdecompress = "bytes \<Rightarrow> int \<Rightarrow> error + bytes"

definition VFS_COMPRESSION_LEVEL :: int where
  "VFS_COMPRESSION_LEVEL = 9"

subsection \<open>Python lists\<close>

text \<open>\<^verbatim>\<open>xs[i]\<close>: a negative index counts from the end.\<close>

definition py_index :: "'a list \<Rightarrow> int \<Rightarrow> error + 'a" where
  "py_index xs i =
     (let n = int (length xs)
      in if 0 \<le> i \<and> i < n then Inr (xs ! nat i)
         else if - n \<le> i \<and> i < 0 then Inr (xs ! nat (n + i))
         else Inl IndexError)"

text \<open>\<^verbatim>\<open>xs[a:b]\<close>: both bounds are clamped to the list.\<close>

definition py_slice :: "'a list \<Rightarrow> int \<Rightarrow> int \<Rightarrow> 'a list" where
  "py_slice xs a b =
     (let n = int (length xs);
          lo = (if a < 0 then max (a + n) 0 else min a n);
          hi = (if b < 0 then max (b + n) 0 else min b n)
      in take (nat (hi - lo)) (drop (nat lo) xs))"

definition bind_ok :: "error + 'a \<Rightarrow> ('a \<Rightarrow> error + 'b) \<Rightarrow> error + 'b" where
  "bind_ok r f = (case r of Inl e \<Rightarrow> Inl e | Inr x \<Rightarrow> f x)"

section \<open>The path resolver (lines 120 to 123)\<close>

text \<open>
  The recursion follows the parent links and need not end: the result is \<open>None\<close> when it
  does not. (The interpreter's recursion limit, which ends a walk of about a thousand
  links with \<^verbatim>\<open>RecursionError\<close>, is a resource bound and is not modelled.) The list
  \<open>dirs\<close> is indexed before the call, \<open>dnames\<close> after it.
\<close>

partial_function (option) build_path ::
  "VfsDir list \<Rightarrow> string list \<Rightarrow> VfsDir \<Rightarrow> (error + pure_path) option" where
  "build_path dirs dnames dir =
     (if dir_parent dir = - 1 then
        Some (bind_ok (py_index dnames (dir_id dir)) (\<lambda>name. Inr (parse_path name)))
      else
        (case py_index dirs (dir_parent dir) of
           Inl e \<Rightarrow> Some (Inl e)
         | Inr up \<Rightarrow>
             Option.bind (build_path dirs dnames up) (\<lambda>r.
               Some (bind_ok r (\<lambda>p.
                     bind_ok (py_index dnames (dir_id dir)) (\<lambda>name.
                       Inr (path_join p name)))))))"

declare build_path.simps [code]


section \<open>Unpacking (lines 125 to 136)\<close>

text \<open>One turn of the loop over the file records.\<close>

definition decompress_file ::
  "zdecompress \<Rightarrow> VfsDir list \<Rightarrow> bytes \<Rightarrow> string list \<Rightarrow> string list \<Rightarrow> pure_path \<Rightarrow>
   VfsFile \<Rightarrow> filesystem \<Rightarrow> ((error + unit) \<times> filesystem) option" where
  "decompress_file zd dirs blob fnames dnames prefix file fs =
     (case py_index dirs (file_dir file) of
        Inl e \<Rightarrow> Some (Inl e, fs)
      | Inr d \<Rightarrow>
          Option.bind (build_path dirs dnames d) (\<lambda>r.
            Some (case r of
                Inl e \<Rightarrow> (Inl e, fs)
              | Inr path \<Rightarrow>
                  (let data = py_slice blob (file_offset file) (file_offset file + file_size file)
                   in case (if file_type file \<noteq> 0
                            then zd (drop 4 data) (int_from_bytes (take 4 data) False)
                            else Inr data) of
                        Inl e \<Rightarrow> (Inl e, fs)
                      | Inr data' \<Rightarrow>
                          io_bind (mkdir_p (joinpath prefix path)) (\<lambda>_.
                            case py_index fnames (file_id file) of
                              Inl e \<Rightarrow> io_raise e
                            | Inr name \<Rightarrow>
                                write_bytes (joinpath prefix (path_join path name)) data')
                            fs))))"



section \<open>Packing (lines 138 to 162)\<close>

text \<open>
  The records are objects: \<^verbatim>\<open>sorted(ofiles, ...)\<close> is a new list of the same objects,
  and the loop writes \<open>size\<close> and \<open>offset\<close> into them. So the loop runs over the indices
  of the file table, sorted by the \<open>id\<close> of their records (Python's sort is stable, as
  \<open>sort_key\<close> is), and updates the table in place. The state of the loop is the table,
  the running offset and the blob.
\<close>

type_synonym pack_state = "VfsFile list \<times> int \<times> bytes"

definition compress_file ::
  "zcompress \<Rightarrow> VfsDir list \<Rightarrow> string list \<Rightarrow> string list \<Rightarrow> pure_path \<Rightarrow> filesystem \<Rightarrow>
   nat \<Rightarrow> pack_state \<Rightarrow> (error + pack_state) option" where
  "compress_file zc odirs ofnames odnames prefix fs i st =
     (case st of (ofiles, offset, oblob) \<Rightarrow>
        (let file = ofiles ! i
         in case py_index odirs (file_dir file) of
              Inl e \<Rightarrow> Some (Inl e)
            | Inr d \<Rightarrow>
                Option.bind (build_path odirs odnames d) (\<lambda>r.
                  Some (
                    bind_ok r (\<lambda>dpath.
                    bind_ok (py_index ofnames (file_id file)) (\<lambda>name.
                    bind_ok (read_bytes fs (joinpath prefix (path_join dpath name))) (\<lambda>data.
                    bind_ok (if file_type file = 2
                             then bind_ok (int_to_bytes (int (length data)) False) (\<lambda>bufsize.
                                    Inr (bufsize @ zc data VFS_COMPRESSION_LEVEL))
                             else Inr data) (\<lambda>data'.
                      let size = int (length data')
                      in Inr (ofiles[i := file\<lparr>file_size := size, file_offset := offset\<rparr>],
                              offset + size, oblob @ data')))))))))"

fun compress_files ::
  "zcompress \<Rightarrow> VfsDir list \<Rightarrow> string list \<Rightarrow> string list \<Rightarrow> pure_path \<Rightarrow> filesystem \<Rightarrow>
   nat list \<Rightarrow> pack_state \<Rightarrow> (error + pack_state) option" where
  "compress_files zc odirs ofnames odnames prefix fs [] st = Some (Inr st)"
| "compress_files zc odirs ofnames odnames prefix fs (i # is) st =
     (case compress_file zc odirs ofnames odnames prefix fs i st of
        None \<Rightarrow> None
      | Some (Inl e) \<Rightarrow> Some (Inl e)
      | Some (Inr st') \<Rightarrow> compress_files zc odirs ofnames odnames prefix fs is st')"

text \<open>\<^verbatim>\<open>sorted(ofiles, key=lambda f: f.id)\<close>, as indices of \<open>ofiles\<close>.\<close>

definition sorted_by_id :: "VfsFile list \<Rightarrow> nat list" where
  "sorted_by_id files = sort_key (\<lambda>i. file_id (files ! i)) [0..<length files]"

text \<open>Lines 142 to 159: from the archive read to the archive to write.\<close>

definition repack ::
  "zcompress \<Rightarrow> pure_path \<Rightarrow> filesystem \<Rightarrow> archive \<Rightarrow> (error + archive) option" where
  "repack zc prefix fs a =
     (case a of (idirs, ifiles, iblob, ifnames, idnames) \<Rightarrow>
        (case compress_files zc idirs ifnames idnames prefix fs (sorted_by_id ifiles)
                (ifiles, 0, []) of
           None \<Rightarrow> None
         | Some (Inl e) \<Rightarrow> Some (Inl e)
         | Some (Inr (ofiles, offset, oblob)) \<Rightarrow>
             Some (Inr (idirs, ofiles, oblob, ifnames, idnames))))"


section \<open>Notions used in the proofs\<close>

subsection \<open>The byte layout, as pure functions\<close>

text \<open>
  The writers below are characterised by these encoders: a writer succeeds exactly when
  its argument fits, and then appends the encoding (lemma \<open>write_vfs_Inr\<close>).
\<close>

definition u32 :: "int \<Rightarrow> bool" where
  "u32 v = (0 \<le> v \<and> v < 2 ^ 32)"

definition i32 :: "int \<Rightarrow> bool" where
  "i32 v = (- (2 ^ 31) \<le> v \<and> v < 2 ^ 31)"

definition enc_str :: "string \<Rightarrow> bytes" where
  "enc_str s = le_bytes 4 (int (length s)) @ map (\<lambda>c. word_of_nat (of_char c)) s"

definition enc_dir :: "VfsDir \<Rightarrow> bytes" where
  "enc_dir d =
     le_bytes 4 (dir_hash d) @ le_bytes 4 (dir_id d) @ le_bytes 4 (dir_parent d) @
     le_bytes 4 (dir_from_dir d) @ le_bytes 4 (dir_from_file d)"

definition enc_file :: "VfsFile \<Rightarrow> bytes" where
  "enc_file f =
     le_bytes 4 (file_hash f) @ le_bytes 4 (file_id f) @ le_bytes 4 (file_type f) @
     le_bytes 4 (file_dir f) @ le_bytes 4 (file_offset f) @ le_bytes 4 (file_size f)"

definition dir_fits :: "VfsDir \<Rightarrow> bool" where
  "dir_fits d =
     (u32 (dir_hash d) \<and> u32 (dir_id d) \<and> i32 (dir_parent d) \<and> i32 (dir_from_dir d) \<and>
      u32 (dir_from_file d))"

definition file_fits :: "VfsFile \<Rightarrow> bool" where
  "file_fits f =
     (u32 (file_hash f) \<and> u32 (file_id f) \<and> u32 (file_type f) \<and> u32 (file_dir f) \<and>
      u32 (file_offset f) \<and> u32 (file_size f))"

definition str_fits :: "string \<Rightarrow> bool" where
  "str_fits s = (u32 (int (length s)) \<and> list_all (\<lambda>c. (of_char c :: nat) < 128) s)"

definition enc_head :: "VfsDir list \<Rightarrow> VfsFile list \<Rightarrow> bytes" where
  "enc_head dirs files =
     magic @ le_bytes 4 (int (length dirs)) @ concat (map enc_dir dirs) @
     le_bytes 4 (int (length files)) @ concat (map enc_file files)"

definition blob_end :: "VfsDir list \<Rightarrow> VfsFile list \<Rightarrow> bytes \<Rightarrow> int" where
  "blob_end dirs files blob = int (length blob) + int (length (enc_head dirs files)) + 4"

definition enc_vfs :: "archive \<Rightarrow> bytes" where
  "enc_vfs a =
     (case a of (dirs, files, blob, fnames, dnames) \<Rightarrow>
        enc_head dirs files @ le_bytes 4 (blob_end dirs files blob) @ blob @
        le_bytes 4 (int (length files)) @ concat (map enc_str fnames) @
        le_bytes 4 (int (length dirs)) @ concat (map enc_str dnames))"

definition vfs_fits :: "archive \<Rightarrow> bool" where
  "vfs_fits a =
     (case a of (dirs, files, blob, fnames, dnames) \<Rightarrow>
        u32 (int (length dirs)) \<and> list_all dir_fits dirs \<and>
        u32 (int (length files)) \<and> list_all file_fits files \<and>
        u32 (blob_end dirs files blob) \<and>
        list_all str_fits fnames \<and> list_all str_fits dnames)"

text \<open>
  \<open>runs_from c m enc k\<close>: started at position \<open>c\<close> of a stream that continues with the
  bytes \<open>enc\<close>, the reader \<open>m\<close> consumes exactly \<open>enc\<close> and then does what \<open>k\<close> does;
  \<open>parses_from c m enc x\<close>: it consumes exactly \<open>enc\<close> and returns \<open>x\<close>.
\<close>

definition runs_from :: "nat \<Rightarrow> (istream, 'a) io \<Rightarrow> bytes \<Rightarrow> (istream, 'a) io \<Rightarrow> bool" where
  "runs_from c m enc k \<longleftrightarrow>
     (\<forall>buf rest. drop c buf = enc @ rest \<longrightarrow> m (buf, c) = k (buf, c + length enc))"

definition parses_from :: "nat \<Rightarrow> (istream, 'a) io \<Rightarrow> bytes \<Rightarrow> 'a \<Rightarrow> bool" where
  "parses_from c m enc x \<longleftrightarrow>
     (\<forall>buf rest. drop c buf = enc @ rest \<longrightarrow> m (buf, c) = (Inr x, (buf, c + length enc)))"

text \<open>Lines 96 to 101 of \<open>read_vfs\<close>, once the tables and the blob are read.\<close>

definition read_vfs_names :: "VfsDir list \<Rightarrow> VfsFile list \<Rightarrow> bytes \<Rightarrow> (istream, archive) io" where
  "read_vfs_names dirs files blob =
     io_bind (read_int False) (\<lambda>nfn.
     io_bind (read_many (nat nfn) read_str) (\<lambda>fnames.
     io_bind (read_int False) (\<lambda>ndn.
     io_bind (read_many (nat ndn) read_str) (\<lambda>dnames.
       io_return (dirs, files, blob, fnames, dnames)))))"

text \<open>Notions for the results on packing.\<close>

definition file_path ::
  "VfsDir list \<Rightarrow> string list \<Rightarrow> string list \<Rightarrow> pure_path \<Rightarrow> VfsFile \<Rightarrow> (error + pure_path) option"
  where
  "file_path dirs fnames dnames prefix f =
     (case py_index dirs (file_dir f) of
        Inl e \<Rightarrow> Some (Inl e)
      | Inr d \<Rightarrow>
          Option.bind (build_path dirs dnames d) (\<lambda>r.
            Some (bind_ok r (\<lambda>dpath.
                  bind_ok (py_index fnames (file_id f)) (\<lambda>name.
                    Inr (joinpath prefix (path_join dpath name)))))))"

definition packed ::
  "zcompress \<Rightarrow> VfsDir list \<Rightarrow> string list \<Rightarrow> string list \<Rightarrow> pure_path \<Rightarrow> filesystem \<Rightarrow>
   VfsFile \<Rightarrow> (error + bytes) option" where
  "packed zc dirs fnames dnames prefix fs f =
     Option.bind (file_path dirs fnames dnames prefix f) (\<lambda>r.
       Some (bind_ok r (\<lambda>p.
             bind_ok (read_bytes fs p) (\<lambda>data.
               if file_type f = 2
               then bind_ok (int_to_bytes (int (length data)) False) (\<lambda>bufsize.
                      Inr (bufsize @ zc data VFS_COMPRESSION_LEVEL))
               else Inr data))))"

definition payload ::
  "zcompress \<Rightarrow> VfsDir list \<Rightarrow> string list \<Rightarrow> string list \<Rightarrow> pure_path \<Rightarrow> filesystem \<Rightarrow>
   VfsFile \<Rightarrow> bytes" where
  "payload zc dirs fnames dnames prefix fs f =
     (case packed zc dirs fnames dnames prefix fs f of Some (Inr pl) \<Rightarrow> pl | _ \<Rightarrow> [])"

definition placed :: "VfsFile \<Rightarrow> int \<Rightarrow> bytes \<Rightarrow> VfsFile" where
  "placed f off pl = f\<lparr>file_size := int (length pl), file_offset := off\<rparr>"

definition before :: "VfsFile list \<Rightarrow> nat \<Rightarrow> nat \<Rightarrow> bool" where
  "before F j i \<longleftrightarrow>
     file_id (F ! j) < file_id (F ! i) \<or> (file_id (F ! j) = file_id (F ! i) \<and> j < i)"












subsection \<open>Example data\<close>

definition ex_dir :: VfsDir where
  "ex_dir =
     \<lparr>dir_hash = 11, dir_id = 0, dir_parent = - 1, dir_from_dir = - 1, dir_from_file = 0\<rparr>"

definition ex_file :: "int \<Rightarrow> VfsFile" where
  "ex_file i =
     \<lparr>file_hash = 7, file_id = i, file_type = 0, file_dir = 0, file_offset = 0,
      file_size = 3\<rparr>"

text \<open>The archive with one directory \<open>d\<close>, one file \<open>a\<close> and the blob \<open>1, 2, 3\<close>.\<close>

definition ex_stream :: bytes where
  "ex_stream =
     [86, 70, 83, 50, 1, 0, 0, 0, 11, 0, 0, 0, 0, 0, 0, 0, 255, 255, 255, 255,
      255, 255, 255, 255, 0, 0, 0, 0, 1, 0, 0, 0, 7, 0, 0, 0, 0, 0, 0, 0, 0, 0,
      0, 0, 0, 0, 0, 0, 0, 0, 0, 0, 3, 0, 0, 0, 63, 0, 0, 0, 1, 2, 3, 1, 0, 0,
      0, 1, 0, 0, 0, 97, 1, 0, 0, 0, 1, 0, 0, 0, 100]"



text \<open>
  An archive with no directory and no file whose end offset, 15, is one less than the
  position that follows it, 16, and three more bytes.
\<close>

definition ex_end_before :: bytes where
  "ex_end_before = [86, 70, 83, 50, 0, 0, 0, 0, 0, 0, 0, 0, 15, 0, 0, 0, 9, 9, 9]"


definition ex_zc :: zcompress where
  "ex_zc d level = 0x78 # 0xDA # d"

definition ex_zd :: zdecompress where
  "ex_zd bs n =
     (case bs of a # b # d \<Rightarrow> if a = 0x78 \<and> b = 0xDA then Inr d else Inl ZlibError
      | _ \<Rightarrow> Inl ZlibError)"

definition ex_prefix :: pure_path where
  "ex_prefix = parse_path ''out''"

definition ex_pack_files :: "VfsFile list" where
  "ex_pack_files =
     [\<lparr>file_hash = 5, file_id = 1, file_type = 2, file_dir = 0, file_offset = 0, file_size = 0\<rparr>,
      \<lparr>file_hash = 6, file_id = 0, file_type = 0, file_dir = 0, file_offset = 0, file_size = 0\<rparr>]"

definition ex_fs :: filesystem where
  "ex_fs =
     [\<lparr>p_root = '''', p_parts = [''out'', ''d'', ''a'']\<rparr> \<mapsto> File [1, 2, 3],
      \<lparr>p_root = '''', p_parts = [''out'', ''d'', ''b'']\<rparr> \<mapsto> File [4, 5]]"

definition ex_same_id :: "VfsFile list" where
  "ex_same_id =
     [\<lparr>file_hash = 5, file_id = 0, file_type = 0, file_dir = 0, file_offset = 0, file_size = 0\<rparr>,
      \<lparr>file_hash = 6, file_id = 0, file_type = 0, file_dir = 0, file_offset = 0, file_size = 0\<rparr>]"

definition ex_pack_archive :: archive where
  "ex_pack_archive = ([ex_dir], ex_pack_files, [], [''a'', ''b''], [''d''])"

definition ex_packed_files :: "VfsFile list" where
  "ex_packed_files =
     [\<lparr>file_hash = 5, file_id = 1, file_type = 2, file_dir = 0, file_offset = 3, file_size = 8\<rparr>,
      \<lparr>file_hash = 6, file_id = 0, file_type = 0, file_dir = 0, file_offset = 0, file_size = 3\<rparr>]"

definition ex_packed_blob :: bytes where
  "ex_packed_blob = [1, 2, 3, 2, 0, 0, 0, 120, 218, 4, 5]"











section \<open>Properties of the primitive codec\<close>

subsection \<open>Integers and ASCII strings\<close>

lemma stream_read_nonneg:
  "0 \<le> n \<Longrightarrow> stream_read n (buf, cur) =
     (Inr (take (nat n) (drop cur buf)), (buf, cur + length (take (nat n) (drop cur buf))))"
  by (simp add: stream_read_def)

lemma read_int_eq:
  "read_int sg (buf, cur) =
     (Inr (int_from_bytes (take 4 (drop cur buf)) sg),
      (buf, cur + length (take 4 (drop cur buf))))"
  by (simp add: read_int_def io_bind_def io_return_def stream_read_def)

lemma read_magic_eq:
  "read_magic (buf, cur) =
     (Inr (take 4 (drop cur buf) = magic), (buf, cur + length (take 4 (drop cur buf))))"
  by (simp add: read_magic_def io_bind_def io_return_def stream_read_def)

lemma le_uint_le_bytes: "le_uint (le_bytes n v) = v mod 256 ^ n"
proof (induction n arbitrary: v)
  case 0
  then show ?case by simp
next
  case (Suc n)
  have "uint (word_of_int v :: byte) = v mod 256"
    by (simp add: uint_word_of_int)
  then show ?case
    using Suc[of "v div 256"] zmod_zmult2_eq[of "256 ^ n" v 256] by simp
qed

lemma length_le_bytes [simp]: "length (le_bytes n v) = n"
  by (induction n arbitrary: v) auto

lemma int_from_bytes_unsigned:
  "0 \<le> v \<Longrightarrow> v < 2 ^ 32 \<Longrightarrow> int_from_bytes (le_bytes 4 v) False = v"
  by (simp add: int_from_bytes_def le_uint_le_bytes)

lemma int_from_bytes_signed:
  assumes "- (2 ^ 31) \<le> v" "v < 2 ^ 31"
  shows "int_from_bytes (le_bytes 4 v) True = v"
proof -
  have ne: "le_bytes 4 v \<noteq> []"
    by (metis length_le_bytes list.size(3) zero_neq_numeral)
  have u: "le_uint (le_bytes 4 v) = v mod 4294967296"
    by (simp add: le_uint_le_bytes)
  show ?thesis
  proof (cases "0 \<le> v")
    case True
    then have "v mod 4294967296 = v" using assms by simp
    then show ?thesis using assms True ne unfolding int_from_bytes_def Let_def u by simp
  next
    case False
    then have "v mod 4294967296 = v + 4294967296"
      using assms mod_add_self2[of v 4294967296]
        mod_pos_pos_trivial[of "v + 4294967296" 4294967296] by simp
    then show ?thesis using assms False ne unfolding int_from_bytes_def Let_def u by simp
  qed
qed

lemma decode_encode_ascii:
  assumes "encode_ascii s = Inr bs"
  shows "decode_ascii bs = Inr s"
proof -
  have asc: "list_all (\<lambda>c. (of_char c :: nat) < 128) s"
    and bs: "bs = map (\<lambda>c. word_of_nat (of_char c)) s"
    using assms by (auto simp: encode_ascii_def split: if_splits)
  have u: "unat (word_of_nat (of_char c) :: byte) = of_char c" for c
    by (simp add: unat_of_nat take_bit_nat_eq_self_iff)
  have lt: "(of_char c :: nat) < 128 \<Longrightarrow> (word_of_nat (of_char c) :: byte) < 128" for c
    using u[of c] by (simp add: word_less_nat_alt)
  have 1: "list_all (\<lambda>b. b < 128) bs"
    using asc lt unfolding bs by (induction s) auto
  have 2: "map (\<lambda>b. char_of (unat b)) bs = s"
    unfolding bs by (induction s) (auto simp: u)
  show ?thesis using 1 2 by (simp add: decode_ascii_def)
qed

subsection \<open>What the writers append\<close>

lemma io_bind_Inr:
  "io_bind m f s = (Inr y, s') \<longleftrightarrow> (\<exists>x s1. m s = (Inr x, s1) \<and> f x s1 = (Inr y, s'))"
  by (auto simp: io_bind_def split: prod.splits sum.splits)

lemma write_int_Inr:
  "write_int v sg out = (Inr (), out') \<longleftrightarrow>
     out' = out @ le_bytes 4 v \<and> (if sg then i32 v else u32 v)"
  by (auto simp: write_int_def int_to_bytes_def io_raise_def stream_write_def u32_def i32_def)

lemma write_str_Inr:
  "write_str s out = (Inr (), out') \<longleftrightarrow> out' = out @ enc_str s \<and> str_fits s"
  by (auto simp: write_str_def io_bind_Inr write_int_Inr encode_ascii_def io_raise_def
      stream_write_def enc_str_def str_fits_def)

lemma write_dir_Inr:
  "write_dir d out = (Inr (), out') \<longleftrightarrow> out' = out @ enc_dir d \<and> dir_fits d"
  by (auto simp: write_dir_def io_bind_Inr write_int_Inr enc_dir_def dir_fits_def)

lemma write_file_Inr:
  "write_file f out = (Inr (), out') \<longleftrightarrow> out' = out @ enc_file f \<and> file_fits f"
  by (auto simp: write_file_def io_bind_Inr write_int_Inr enc_file_def file_fits_def)

lemma write_each_Inr:
  assumes "\<And>x out out'. w x out = (Inr (), out') \<longleftrightarrow> out' = out @ enc x \<and> ok x"
  shows "write_each w xs out = (Inr (), out') \<longleftrightarrow>
           out' = out @ concat (map enc xs) \<and> list_all ok xs"
proof (induction xs arbitrary: out)
  case Nil
  then show ?case by (auto simp: io_return_def)
next
  case (Cons x xs)
  show ?case by (auto simp: io_bind_Inr assms Cons)
qed

lemma write_vfs_Inr:
  "write_vfs a [] = (Inr (), out) \<longleftrightarrow> out = enc_vfs a \<and> vfs_fits a"
proof -
  obtain dirs files blob fnames dnames where a: "a = (dirs, files, blob, fnames, dnames)"
    by (cases a) auto
  show ?thesis
    unfolding a write_vfs_def enc_vfs_def vfs_fits_def prod.case
    by (auto simp: io_bind_Inr write_magic_def stream_write_def ostream_tell_def
        write_int_Inr write_each_Inr[where w = write_dir, OF write_dir_Inr]
        write_each_Inr[where w = write_file, OF write_file_Inr]
        write_each_Inr[where w = write_str, OF write_str_Inr] enc_head_def blob_end_def)
qed

subsection \<open>What the readers consume\<close>

lemma drop_after: "drop cur buf = a @ r \<Longrightarrow> drop (cur + length a) buf = r"
  by (metis add.commute append_eq_conv_conj drop_drop)

lemma parses_fromD:
  "parses_from c m enc x \<Longrightarrow> drop c buf = enc @ rest \<Longrightarrow>
   m (buf, c) = (Inr x, (buf, c + length enc))"
  by (simp add: parses_from_def)

lemma runs_fromD:
  "runs_from c m enc k \<Longrightarrow> drop c buf = enc @ rest \<Longrightarrow> m (buf, c) = k (buf, c + length enc)"
  by (simp add: runs_from_def)

lemma runs_refl: "runs_from c k [] k"
  by (simp add: runs_from_def)

lemma runs_bind:
  assumes "parses_from c m a x" "runs_from (c + length a) (f x) b k"
  shows "runs_from c (io_bind m f) (a @ b) k"
  unfolding runs_from_def
proof (intro allI impI)
  fix buf rest
  assume "drop c buf = (a @ b) @ rest"
  then have d: "drop c buf = a @ (b @ rest)" by simp
  have 1: "m (buf, c) = (Inr x, (buf, c + length a))"
    by (rule parses_fromD[OF assms(1) d])
  have 2: "f x (buf, c + length a) = k (buf, c + length a + length b)"
    by (rule runs_fromD[OF assms(2) drop_after[OF d]])
  show "io_bind m f (buf, c) = k (buf, c + length (a @ b))"
    by (simp add: io_bind_def 1 2 add.assoc)
qed

lemma runs_parses:
  assumes "runs_from c m a k" "parses_from (c + length a) k b x"
  shows "parses_from c m (a @ b) x"
  unfolding parses_from_def
proof (intro allI impI)
  fix buf rest
  assume "drop c buf = (a @ b) @ rest"
  then have d: "drop c buf = a @ (b @ rest)" by simp
  have "m (buf, c) = k (buf, c + length a)"
    by (rule runs_fromD[OF assms(1) d])
  also have "\<dots> = (Inr x, (buf, c + length a + length b))"
    by (rule parses_fromD[OF assms(2) drop_after[OF d]])
  finally show "m (buf, c) = (Inr x, (buf, c + length (a @ b)))"
    by (simp add: add.assoc)
qed

lemma parses_return: "parses_from c (io_return x) [] x"
  by (simp add: parses_from_def io_return_def)

lemma parses_bind:
  assumes "parses_from c m a x" "parses_from (c + length a) (f x) b y"
  shows "parses_from c (io_bind m f) (a @ b) y"
proof -
  have "runs_from c (io_bind m f) (a @ []) (f x)"
    by (rule runs_bind[OF assms(1) runs_refl])
  then have "runs_from c (io_bind m f) a (f x)"
    by simp
  then show ?thesis
    by (rule runs_parses[OF _ assms(2)])
qed

lemma parses_bind_return:
  assumes "parses_from c m a x"
  shows "parses_from c (io_bind m (\<lambda>x. io_return (g x))) a (g x)"
proof -
  have "parses_from (c + length a) (io_return (g x)) [] (g x)"
    by (rule parses_return)
  then have "parses_from c (io_bind m (\<lambda>x. io_return (g x))) (a @ []) (g x)"
    by (rule parses_bind[OF assms])
  then show ?thesis by simp
qed

lemma parses_read_int:
  assumes "if sg then i32 v else u32 v"
  shows "parses_from c (read_int sg) (le_bytes 4 v) v"
  unfolding parses_from_def
proof (intro allI impI)
  fix buf rest
  assume "drop c buf = le_bytes 4 v @ rest"
  then have "take 4 (drop c buf) = le_bytes 4 v"
    by simp
  then show "read_int sg (buf, c) = (Inr v, (buf, c + length (le_bytes 4 v)))"
    using assms
    by (auto simp: read_int_eq u32_def i32_def int_from_bytes_unsigned int_from_bytes_signed
        split: if_splits)
qed

lemma parses_u32: "u32 v \<Longrightarrow> parses_from c (read_int False) (le_bytes 4 v) v"
  using parses_read_int[of False v c] by simp

lemma parses_i32: "i32 v \<Longrightarrow> parses_from c (read_int True) (le_bytes 4 v) v"
  using parses_read_int[of True v c] by simp

lemma parses_read_magic: "parses_from c read_magic magic True"
  unfolding parses_from_def
proof (intro allI impI)
  fix buf rest
  assume "drop c buf = magic @ rest"
  then have "take 4 (drop c buf) = magic"
    by (simp add: magic_def)
  moreover have "length magic = 4"
    by (simp add: magic_def)
  ultimately show "read_magic (buf, c) = (Inr True, (buf, c + length magic))"
    by (simp add: read_magic_eq)
qed

lemma parses_read_str:
  assumes "str_fits s"
  shows "parses_from c read_str (enc_str s) s"
  unfolding parses_from_def
proof (intro allI impI)
  fix buf rest
  let ?bs = "map (\<lambda>c. word_of_nat (of_char c)) s :: bytes"
  assume "drop c buf = enc_str s @ rest"
  then have d: "drop c buf = le_bytes 4 (int (length s)) @ (?bs @ rest)"
    by (simp add: enc_str_def)
  have "u32 (int (length s))"
    using assms by (simp add: str_fits_def)
  then have 1: "read_int False (buf, c) = (Inr (int (length s)), (buf, c + 4))"
    using parses_fromD[OF parses_u32 d] by simp
  have "drop (c + 4) buf = ?bs @ rest"
    using drop_after[OF d] by simp
  then have t: "take (length s) (drop (c + 4) buf) = ?bs"
    by simp
  have e: "encode_ascii s = Inr ?bs"
    using assms by (simp add: encode_ascii_def str_fits_def)
  show "read_str (buf, c) = (Inr s, (buf, c + length (enc_str s)))"
    unfolding read_str_def
    by (simp add: io_bind_def 1 stream_read_nonneg t decode_encode_ascii[OF e]
        io_return_def enc_str_def)
qed

lemma parses_read_dir:
  assumes "dir_fits d"
  shows "parses_from c read_dir (enc_dir d) d"
proof -
  have "parses_from c read_dir (enc_dir d)
     \<lparr>dir_hash = dir_hash d, dir_id = dir_id d, dir_parent = dir_parent d,
      dir_from_dir = dir_from_dir d, dir_from_file = dir_from_file d\<rparr>"
    unfolding read_dir_def enc_dir_def
    using assms
    by (intro parses_bind[OF parses_u32] parses_bind[OF parses_i32]
          parses_bind_return[OF parses_u32])
       (simp_all add: dir_fits_def)
  then show ?thesis by (cases d) simp
qed

lemma parses_read_file:
  assumes "file_fits f"
  shows "parses_from c read_file (enc_file f) f"
proof -
  have "parses_from c read_file (enc_file f)
     \<lparr>file_hash = file_hash f, file_id = file_id f, file_type = file_type f,
      file_dir = file_dir f, file_offset = file_offset f, file_size = file_size f\<rparr>"
    unfolding read_file_def enc_file_def
    using assms
    by (intro parses_bind[OF parses_u32] parses_bind_return[OF parses_u32])
       (simp_all add: file_fits_def)
  then show ?thesis by (cases f) simp
qed

lemma parses_read_many:
  assumes elem: "\<And>x c. ok x \<Longrightarrow> parses_from c m (enc x) x"
  shows "list_all ok xs \<Longrightarrow> parses_from c (read_many (length xs) m) (concat (map enc xs)) xs"
proof (induction xs arbitrary: c)
  case Nil
  then show ?case by (simp add: parses_return)
next
  case (Cons x xs)
  have 1: "parses_from c m (enc x) x"
    using elem Cons.prems by simp
  have 2: "parses_from (c + length (enc x)) (read_many (length xs) m) (concat (map enc xs)) xs"
    using Cons.IH Cons.prems by simp
  show ?case
    using parses_bind[OF 1, of "\<lambda>x. io_bind (read_many (length xs) m) (\<lambda>xs. io_return (x # xs))",
        OF parses_bind_return[OF 2, of "\<lambda>xs. x # xs"]]
    by simp
qed





lemma parses_read_blob:
  assumes "e = int c + 4 + int (length blob)" "u32 e"
  shows "parses_from c read_blob (le_bytes 4 e @ blob) blob"
  unfolding parses_from_def
proof (intro allI impI)
  fix buf rest
  assume "drop c buf = (le_bytes 4 e @ blob) @ rest"
  then have d: "drop c buf = le_bytes 4 e @ (blob @ rest)"
    by simp
  have 1: "read_int False (buf, c) = (Inr e, (buf, c + 4))"
    using parses_fromD[OF parses_u32[OF assms(2)] d] by simp
  have "drop (c + 4) buf = blob @ rest"
    using drop_after[OF d] by simp
  then have t: "take (length blob) (drop (c + 4) buf) = blob"
    by simp
  have n: "e - int (c + 4) = int (length blob)"
    using assms(1) by simp
  show "read_blob (buf, c) = (Inr blob, (buf, c + length (le_bytes 4 e @ blob)))"
    unfolding read_blob_def
    by (simp add: io_bind_def 1 stream_tell_def n stream_read_nonneg t del: of_nat_add)
qed

lemma runs_if_magic:
  "runs_from c m b k \<Longrightarrow> runs_from c (if \<not> True then io_raise BadMagic else m) b k"
  by simp

lemma runs_count_many:
  assumes "\<And>x c. ok x \<Longrightarrow> parses_from c m (enc x) x"
    and "u32 (int (length xs))" "list_all ok xs"
    and "runs_from (c + 4 + length (concat (map enc xs))) (f xs) b k"
  shows "runs_from c (io_bind (read_int False) (\<lambda>n. io_bind (read_many (nat n) m) f))
           (le_bytes 4 (int (length xs)) @ concat (map enc xs) @ b) k"
proof -
  have 1: "parses_from (c + length (le_bytes 4 (int (length xs))))
             (read_many (nat (int (length xs))) m) (concat (map enc xs)) xs"
    using parses_read_many[of ok m enc xs, OF assms(1) assms(3)] by simp
  have 2: "runs_from (c + length (le_bytes 4 (int (length xs))))
             (io_bind (read_many (nat (int (length xs))) m) f) (concat (map enc xs) @ b) k"
    by (rule runs_bind[OF 1]) (use assms(4) in simp)
  show ?thesis
    by (rule runs_bind[OF parses_u32[OF assms(2)]]) (rule 2)
qed

lemma vfs_fitsD:
  assumes "vfs_fits (dirs, files, blob, fnames, dnames)"
  shows "u32 (int (length dirs))" "list_all dir_fits dirs" "u32 (int (length files))"
    "list_all file_fits files" "u32 (blob_end dirs files blob)"
    "list_all str_fits fnames" "list_all str_fits dnames"
  using assms by (simp_all add: vfs_fits_def)

lemma runs_trans:
  assumes "runs_from c m a k" "runs_from (c + length a) k b k'"
  shows "runs_from c m (a @ b) k'"
  unfolding runs_from_def
proof (intro allI impI)
  fix buf rest
  assume "drop c buf = (a @ b) @ rest"
  then have d: "drop c buf = a @ (b @ rest)" by simp
  have "m (buf, c) = k (buf, c + length a)"
    by (rule runs_fromD[OF assms(1) d])
  also have "\<dots> = k' (buf, c + length a + length b)"
    by (rule runs_fromD[OF assms(2) drop_after[OF d]])
  finally show "m (buf, c) = k' (buf, c + length (a @ b))"
    by (simp add: add.assoc)
qed

text \<open>
  On a stream that starts with the two tables of an archive, whatever follows,
  \<open>read_vfs\<close> reads them back and goes on with the blob and the name tables.
\<close>

lemma runs_read_vfs_head:
  assumes fits: "u32 (int (length dirs))" "list_all dir_fits dirs" "u32 (int (length files))"
    "list_all file_fits files"
  shows "runs_from 0 read_vfs (enc_head dirs files)
           (io_bind read_blob (read_vfs_names dirs files))"
proof -
  have "runs_from 0 read_vfs
      (magic @ le_bytes 4 (int (length dirs)) @ concat (map enc_dir dirs) @
       le_bytes 4 (int (length files)) @ concat (map enc_file files) @ [])
      (io_bind read_blob (read_vfs_names dirs files))"
    unfolding read_vfs_def read_vfs_names_def
    apply (rule runs_bind[OF parses_read_magic])
    apply (rule runs_if_magic)
    apply (rule runs_count_many[where ok = dir_fits and enc = enc_dir])
       apply (erule parses_read_dir)
      apply (rule fits)
     apply (rule fits)
    apply (rule runs_count_many[where ok = file_fits and enc = enc_file])
       apply (erule parses_read_file)
      apply (rule fits)
     apply (rule fits)
    apply (rule runs_refl)
    done
  then show ?thesis
    unfolding enc_head_def by (simp only: append_assoc append_Nil2)
qed

lemma runs_read_vfs:
  assumes fits: "u32 (int (length dirs))" "list_all dir_fits dirs" "u32 (int (length files))"
    "list_all file_fits files" "u32 (blob_end dirs files blob)"
  shows "runs_from 0 read_vfs
           (enc_head dirs files @ le_bytes 4 (blob_end dirs files blob) @ blob)
           (read_vfs_names dirs files blob)"
proof -
  have pos: "blob_end dirs files blob =
      int (0 + length (enc_head dirs files)) + 4 + int (length blob)"
    by (simp add: blob_end_def)
  have "runs_from (0 + length (enc_head dirs files))
      (io_bind read_blob (read_vfs_names dirs files))
      ((le_bytes 4 (blob_end dirs files blob) @ blob) @ [])
      (read_vfs_names dirs files blob)"
    by (rule runs_bind[OF parses_read_blob[OF pos fits(5)] runs_refl])
  then have "runs_from (0 + length (enc_head dirs files))
      (io_bind read_blob (read_vfs_names dirs files))
      (le_bytes 4 (blob_end dirs files blob) @ blob)
      (read_vfs_names dirs files blob)"
    by (simp only: append_Nil2)
  then show ?thesis
    by (rule runs_trans[OF runs_read_vfs_head[OF fits(1-4)]])
qed

lemma parses_count_strs:
  assumes "u32 (int (length xs))" "list_all str_fits xs"
    and "parses_from (c + 4 + length (concat (map enc_str xs))) (f xs) b y"
  shows "parses_from c (io_bind (read_int False) (\<lambda>n. io_bind (read_many (nat n) read_str) f))
           (le_bytes 4 (int (length xs)) @ concat (map enc_str xs) @ b) y"
proof -
  have 1: "parses_from (c + length (le_bytes 4 (int (length xs))))
             (read_many (nat (int (length xs))) read_str) (concat (map enc_str xs)) xs"
    using parses_read_many[of str_fits read_str enc_str xs, OF parses_read_str assms(2)]
    by simp
  have 2: "parses_from (c + length (le_bytes 4 (int (length xs))))
             (io_bind (read_many (nat (int (length xs))) read_str) f)
             (concat (map enc_str xs) @ b) y"
    by (rule parses_bind[OF 1]) (use assms(3) in simp)
  show ?thesis
    by (rule parses_bind[OF parses_u32[OF assms(1)]]) (rule 2)
qed

lemma parses_read_vfs_names:
  assumes "u32 (int (length fnames))" "list_all str_fits fnames"
    "u32 (int (length dnames))" "list_all str_fits dnames"
  shows "parses_from c (read_vfs_names dirs files blob)
      (le_bytes 4 (int (length fnames)) @ concat (map enc_str fnames) @
       le_bytes 4 (int (length dnames)) @ concat (map enc_str dnames))
      (dirs, files, blob, fnames, dnames)"
proof -
  have "parses_from c (read_vfs_names dirs files blob)
      (le_bytes 4 (int (length fnames)) @ concat (map enc_str fnames) @
       le_bytes 4 (int (length dnames)) @ concat (map enc_str dnames) @ [])
      (dirs, files, blob, fnames, dnames)"
    unfolding read_vfs_names_def
    by (intro parses_count_strs parses_return assms)
  then show ?thesis by simp
qed

lemma parses_read_vfs:
  assumes "vfs_fits (dirs, files, blob, fnames, dnames)"
    and "length fnames = length files" "length dnames = length dirs"
  shows "parses_from 0 read_vfs (enc_vfs (dirs, files, blob, fnames, dnames))
           (dirs, files, blob, fnames, dnames)"
proof -
  note fits = vfs_fitsD[OF assms(1)]
  have fn: "u32 (int (length fnames))"
    using fits(3) by (simp only: assms(2))
  have dn: "u32 (int (length dnames))"
    using fits(1) by (simp only: assms(3))
  have "parses_from 0 read_vfs
      ((enc_head dirs files @ le_bytes 4 (blob_end dirs files blob) @ blob) @
       le_bytes 4 (int (length fnames)) @ concat (map enc_str fnames) @
       le_bytes 4 (int (length dnames)) @ concat (map enc_str dnames))
      (dirs, files, blob, fnames, dnames)"
    by (rule runs_parses[OF runs_read_vfs[OF fits(1-5)]
          parses_read_vfs_names[OF fn fits(6) dn fits(7)]])
  then show ?thesis
    unfolding enc_vfs_def prod.case
    by (simp only: append_assoc assms(2,3))
qed

lemma read_write_vfs:
  assumes "write_vfs (dirs, files, blob, fnames, dnames) [] = (Inr (), out)"
    and "length fnames = length files" "length dnames = length dirs"
  shows "read_vfs (out, 0) = (Inr (dirs, files, blob, fnames, dnames), (out, length out))"
proof -
  have out: "out = enc_vfs (dirs, files, blob, fnames, dnames)"
    and fits: "vfs_fits (dirs, files, blob, fnames, dnames)"
    using assms(1) by (simp_all add: write_vfs_Inr)
  have "read_vfs (out, 0) =
      (Inr (dirs, files, blob, fnames, dnames),
       (out, 0 + length (enc_vfs (dirs, files, blob, fnames, dnames))))"
    by (rule parses_fromD[OF parses_read_vfs[OF fits assms(2,3)], where rest = "[]"])
       (simp add: out)
  then show ?thesis
    by (simp add: out)
qed

section \<open>The claims on the codec\<close>

lemma ex_stream_written:
  "write_vfs ([ex_dir], [ex_file 0], [1, 2, 3], [''a''], [''d'']) [] = (Inr (), ex_stream)"
  by code_simp





text \<open>
  Claim C5, as stated: on a stream with fewer than 4 bytes left at the cursor,
  \<open>read_int\<close> fails with a truncated-read error. The code does not: \<^verbatim>\<open>vfs.read(4)\<close>
  returns the bytes that are left and \<^verbatim>\<open>int.from_bytes\<close> accepts any number of them.
  With the two bytes \<open>1, 2\<close> left, \<open>read_int\<close> returns 513.
\<close>

theorem read_int_truncated_counterexample:
  "read_int False ([1, 2], 0) = (Inr 513, ([1, 2], 2))"
  by (simp add: read_int_eq int_from_bytes_def)

text \<open>
  Claim C5, amended: \<open>read_int\<close> never fails. It consumes the next 4 bytes, or all the
  bytes that are left when there are fewer, and returns their little-endian value (0 when
  none is left), signed or unsigned as asked.
\<close>

theorem read_int_never_fails:
  "read_int sg (buf, cur) =
     (Inr (int_from_bytes (take 4 (drop cur buf)) sg), (buf, cur + min 4 (length buf - cur)))"
  by (simp add: read_int_eq min.commute)

theorem read_int_never_fails_witness:
  "read_int True ([255], 0) = (Inr (- 1), ([255], 1))"
  using read_int_never_fails[of True "[255]" 0] by (simp add: int_from_bytes_def)

text \<open>
  Claim C8: on a stream whose first 4 bytes are not \<^verbatim>\<open>VFS2\<close> (also a stream of fewer
  than 4 bytes), \<open>read_vfs\<close> raises the bad-magic error, and the cursor is left after
  those first bytes: nothing more is read.
\<close>

theorem bad_magic_rejected:
  assumes "take 4 (drop cur buf) \<noteq> magic"
  shows "read_vfs (buf, cur) = (Inl BadMagic, (buf, cur + min 4 (length buf - cur)))"
  using assms by (simp add: read_vfs_def io_bind_def read_magic_eq io_raise_def min.commute)

theorem bad_magic_rejected_witness:
  "take 4 (drop 0 [0x56, 0x46, 0x53, 0x33, 7, 7, 7]) \<noteq> magic \<and>
   read_vfs ([0x56, 0x46, 0x53, 0x33, 7, 7, 7], 0) =
     (Inl BadMagic, ([0x56, 0x46, 0x53, 0x33, 7, 7, 7], 4))"
  using bad_magic_rejected[of 0 "[0x56, 0x46, 0x53, 0x33, 7, 7, 7]"]
  by (simp add: magic_def)

text \<open>
  Claim C6, as stated: the blob runs from the position after the end-offset field to the
  end offset, and reading fails whenever the computed length is negative. The code has
  no check of its own; the buffered \<^verbatim>\<open>read\<close> raises only below \<open>-1\<close>. With the end
  offset 15 read at position 12, the position after the field is 16 and the length is
  \<open>-1\<close>: the read succeeds and the blob is the rest of the stream.
\<close>

theorem negative_blob_length_counterexample:
  "read_vfs (ex_end_before, 0) = (Inr ([], [], [9, 9, 9], [], []), (ex_end_before, 19))"
  by code_simp

text \<open>
  Claim C6, amended: after the two tables, \<open>read_vfs\<close> reads the end offset \<open>e\<close> from
  the next 4 bytes and computes \<open>n = e - p\<close>, where \<open>p\<close> is the position after those
  bytes. When \<open>n < -1\<close> it fails (the \<^verbatim>\<open>ValueError\<close> of \<^verbatim>\<open>read\<close>), having read nothing
  more. When \<open>n = -1\<close> the blob is all the rest of the stream. Otherwise the blob is the
  next \<open>n\<close> bytes from \<open>p\<close>, or the bytes up to the end of the stream when fewer are left.
  Then the name tables are read from the position after the blob.
\<close>

theorem blob_extent:
  assumes "u32 (int (length dirs))" and "list_all dir_fits dirs"
    and "u32 (int (length files))" and "list_all file_fits files"
  shows "read_vfs (enc_head dirs files @ rest, 0) =
     (let p = length (enc_head dirs files) + min 4 (length rest);
          n = int_from_bytes (take 4 rest) False - int p
      in if n < - 1 then (Inl ReadLength, (enc_head dirs files @ rest, p))
         else
           let blob = (if n = - 1 then drop 4 rest else take (nat n) (drop 4 rest))
           in read_vfs_names dirs files blob (enc_head dirs files @ rest, p + length blob))"
proof -
  let ?buf = "enc_head dirs files @ rest" and ?h = "length (enc_head dirs files)"
  define q where "q = min 4 (length rest)"
  define e where "e = int_from_bytes (take 4 rest) False"
  define n where "n = e - int (?h + q)"
  have "drop 0 ?buf = enc_head dirs files @ rest"
    by simp
  from runs_fromD[OF runs_read_vfs_head[OF assms] this]
  have 1: "read_vfs (?buf, 0) = io_bind read_blob (read_vfs_names dirs files) (?buf, ?h)"
    by simp
  have lq: "length (take 4 rest) = q"
    by (simp add: q_def min.commute)
  have 2: "read_int False (?buf, ?h) = (Inr e, (?buf, ?h + q))"
    unfolding read_int_eq e_def using lq by simp
  have "drop q rest = drop 4 rest"
    by (cases "4 \<le> length rest") (simp_all add: q_def min_def)
  then have 3: "drop (?h + q) ?buf = drop 4 rest"
    by simp
  have 4: "read_blob (?buf, ?h) = stream_read n (?buf, ?h + q)"
    by (simp add: read_blob_def io_bind_def 2 stream_tell_def n_def)
  have 5: "stream_read n (?buf, ?h + q) =
      (if n < - 1 then (Inl ReadLength, (?buf, ?h + q))
       else let blob = (if n = - 1 then drop 4 rest else take (nat n) (drop 4 rest))
            in (Inr blob, (?buf, ?h + q + length blob)))"
    unfolding stream_read_def prod.case 3 by (rule refl)
  have "read_vfs (?buf, 0) =
      (if n < - 1 then (Inl ReadLength, (?buf, ?h + q))
       else let blob = (if n = - 1 then drop 4 rest else take (nat n) (drop 4 rest))
            in read_vfs_names dirs files blob (?buf, ?h + q + length blob))"
    unfolding 1 by (simp add: io_bind_def 4 5 Let_def)
  then show ?thesis
    unfolding n_def e_def q_def Let_def .
qed

theorem blob_extent_witness:
  "u32 (int (length ([] :: VfsDir list))) \<and> list_all dir_fits [] \<and>
   u32 (int (length ([] :: VfsFile list))) \<and> list_all file_fits [] \<and>
   read_vfs (enc_head [] [] @ [19, 0, 0, 0, 9, 9, 9, 8, 8], 0) =
     read_vfs_names [] [] [9, 9, 9] (enc_head [] [] @ [19, 0, 0, 0, 9, 9, 9, 8, 8], 19) \<and>
   read_vfs (enc_head [] [] @ [14, 0, 0, 0, 9, 9, 9], 0) =
     (Inl ReadLength, (enc_head [] [] @ [14, 0, 0, 0, 9, 9, 9], 16))"
proof -
  have h: "u32 (int (length ([] :: VfsDir list)))" "list_all dir_fits []"
    "u32 (int (length ([] :: VfsFile list)))" "list_all file_fits []"
    by (simp_all add: u32_def)
  have l: "length (enc_head [] []) = 12"
    by (simp add: enc_head_def magic_def)
  have i: "int_from_bytes [19, 0, 0, 0] False = 19" "int_from_bytes [14, 0, 0, 0] False = 14"
    by (simp_all add: int_from_bytes_def)
  show ?thesis
    using h blob_extent[OF h, of "[19, 0, 0, 0, 9, 9, 9, 8, 8]"]
      blob_extent[OF h, of "[14, 0, 0, 0, 9, 9, 9]"]
    by (simp add: l i Let_def)
qed




text \<open>
  Claim C10: when there are as many file names as file records and as many directory
  names as directory records, a stream that \<open>write_vfs\<close> produced reads back as the same
  directories, files, blob and names, and is read to its end. That the names are ASCII
  and that every field fits its 32-bit range need not be assumed: \<open>write_vfs\<close> raises
  otherwise (lemma \<open>write_vfs_Inr\<close>), and then there is no stream.
\<close>

theorem write_read_roundtrip:
  assumes "length fnames = length files" and "length dnames = length dirs"
    and "write_vfs (dirs, files, blob, fnames, dnames) [] = (Inr (), out)"
  shows "read_vfs (out, 0) = (Inr (dirs, files, blob, fnames, dnames), (out, length out))"
  by (rule read_write_vfs[OF assms(3) assms(1) assms(2)])

theorem write_read_roundtrip_witness:
  "length [''a''] = length [ex_file 0] \<and> length [''d''] = length [ex_dir] \<and>
   write_vfs ([ex_dir], [ex_file 0], [1, 2, 3], [''a''], [''d'']) [] = (Inr (), ex_stream) \<and>
   read_vfs (ex_stream, 0) =
     (Inr ([ex_dir], [ex_file 0], [1, 2, 3], [''a''], [''d'']), (ex_stream, 81))"
proof -
  have "length ex_stream = 81"
    by (simp add: ex_stream_def)
  then show ?thesis
    using write_read_roundtrip[OF _ _ ex_stream_written] ex_stream_written by simp
qed

section \<open>Properties of the path resolver\<close>










section \<open>Properties of packing and unpacking\<close>

lemma compress_file_eq:
  "compress_file zc dirs fnames dnames prefix fs i (F, off, B) =
     (case packed zc dirs fnames dnames prefix fs (F ! i) of
        None \<Rightarrow> None
      | Some (Inl e) \<Rightarrow> Some (Inl e)
      | Some (Inr pl) \<Rightarrow> Some (Inr (F[i := placed (F ! i) off pl], off + int (length pl), B @ pl)))"
  unfolding compress_file_def packed_def file_path_def placed_def Let_def prod.case
  by (auto simp: bind_ok_def split: sum.splits option.splits Option.bind_splits)

lemma placed_fields [simp]:
  "file_hash (placed f off pl) = file_hash f" "file_id (placed f off pl) = file_id f"
  "file_type (placed f off pl) = file_type f" "file_dir (placed f off pl) = file_dir f"
  "file_offset (placed f off pl) = off" "file_size (placed f off pl) = int (length pl)"
  by (simp_all add: placed_def)

lemma file_path_placed [simp]:
  "file_path dirs fnames dnames prefix (placed f off pl) = file_path dirs fnames dnames prefix f"
  unfolding file_path_def placed_fields by (rule refl)

lemma packed_placed [simp]:
  "packed zc dirs fnames dnames prefix fs (placed f off pl) =
   packed zc dirs fnames dnames prefix fs f"
  unfolding packed_def file_path_placed placed_fields by (rule refl)

lemma payload_placed [simp]:
  "payload zc dirs fnames dnames prefix fs (placed f off pl) =
   payload zc dirs fnames dnames prefix fs f"
  by (simp add: payload_def)

lemma compress_files_result:
  assumes "compress_files zc dirs fnames dnames prefix fs is (F, off, B) = Some (Inr (F', off', B'))"
    and "distinct is" and "\<forall>i\<in>set is. i < length F"
  shows "(\<forall>i\<in>set is. packed zc dirs fnames dnames prefix fs (F ! i) =
                       Some (Inr (payload zc dirs fnames dnames prefix fs (F ! i)))) \<and>
         B' = B @ concat (map (\<lambda>i. payload zc dirs fnames dnames prefix fs (F ! i)) is) \<and>
         off' = off + int (length (concat (map (\<lambda>i. payload zc dirs fnames dnames prefix fs (F ! i)) is))) \<and>
         length F' = length F \<and>
         (\<forall>j<length F. j \<notin> set is \<longrightarrow> F' ! j = F ! j) \<and>
         (\<forall>k<length is. F' ! (is ! k) =
            placed (F ! (is ! k))
              (off + int (length (concat (map (\<lambda>i. payload zc dirs fnames dnames prefix fs (F ! i)) (take k is)))))
              (payload zc dirs fnames dnames prefix fs (F ! (is ! k))))"
  using assms
proof (induction "is" arbitrary: F off B)
  case Nil
  then show ?case by simp
next
  case (Cons i "is")
  let ?pl = "\<lambda>F j. payload zc dirs fnames dnames prefix fs (F ! j)"
  from Cons.prems(1) obtain pl where
    pk: "packed zc dirs fnames dnames prefix fs (F ! i) = Some (Inr pl)"
    and rest: "compress_files zc dirs fnames dnames prefix fs is
                 (F[i := placed (F ! i) off pl], off + int (length pl), B @ pl) =
               Some (Inr (F', off', B'))"
    by (auto simp: compress_file_eq split: option.splits sum.splits)
  have pl: "?pl F i = pl"
    using pk by (simp add: payload_def)
  let ?F1 = "F[i := placed (F ! i) off pl]"
  have i: "i < length F" "i \<notin> set is" "distinct is" "\<forall>j\<in>set is. j < length ?F1"
    using Cons.prems(2,3) by simp_all
  have same: "?F1 ! j = F ! j" if "j \<in> set is" for j
    using that i(2) by (metis nth_list_update_neq)
  have map_eq: "map (?pl ?F1) js = map (?pl F) js" if "set js \<subseteq> set is" for js
    using that same by (induction js) auto
  note IH = Cons.IH[OF rest i(3) i(4)]
  have 1: "\<forall>j\<in>set (i # is). packed zc dirs fnames dnames prefix fs (F ! j) = Some (Inr (?pl F j))"
    using IH same pk pl by auto
  have 2: "B' = B @ concat (map (?pl F) (i # is))"
    using IH map_eq[of "is"] pl by simp
  have 3: "off' = off + int (length (concat (map (?pl F) (i # is))))"
    using IH map_eq[of "is"] pl by simp
  have 4: "length F' = length F"
    using IH by simp
  have 5: "\<forall>j<length F. j \<notin> set (i # is) \<longrightarrow> F' ! j = F ! j"
    using IH by auto
  have 6: "F' ! ((i # is) ! k) =
      placed (F ! ((i # is) ! k)) (off + int (length (concat (map (?pl F) (take k (i # is))))))
        (?pl F ((i # is) ! k))" if k: "k < length (i # is)" for k
  proof (cases k)
    case 0
    have "F' ! i = ?F1 ! i"
      using IH i by simp
    then show ?thesis
      using 0 i pl by simp
  next
    case (Suc m)
    then have m: "m < length is" using k by simp
    then have mem: "is ! m \<in> set is" by simp
    have "set (take m is) \<subseteq> set is" by (rule set_take_subset)
    from map_eq[OF this] have t: "map (?pl ?F1) (take m is) = map (?pl F) (take m is)" .
    have "F' ! (is ! m) =
        placed (?F1 ! (is ! m))
          (off + int (length pl) + int (length (concat (map (?pl ?F1) (take m is)))))
          (?pl ?F1 (is ! m))"
      using IH m by blast
    then show ?thesis
      unfolding Suc t using same[OF mem] pl by (simp add: add.assoc)
  qed
  show ?case
    using 1 2 3 4 5 6 by blast
qed

lemma insort_key_lex:
  fixes f :: "nat \<Rightarrow> int"
  assumes "sorted_wrt (\<lambda>a b. f a < f b \<or> (f a = f b \<and> a < b)) ys" "\<forall>y\<in>set ys. x < y"
  shows "sorted_wrt (\<lambda>a b. f a < f b \<or> (f a = f b \<and> a < b)) (insort_key f x ys)"
  using assms
proof (induction ys)
  case Nil
  then show ?case by simp
next
  case (Cons y ys)
  show ?case
  proof (cases "f x \<le> f y")
    case True
    have "f x < f z \<or> (f x = f z \<and> x < z)" if "z \<in> set (y # ys)" for z
    proof -
      have "f y \<le> f z" using Cons.prems(1) that by auto
      moreover have "x < z" using Cons.prems(2) that by auto
      ultimately show ?thesis using True by auto
    qed
    then show ?thesis using True Cons.prems(1) by simp
  next
    case False
    then have "sorted_wrt (\<lambda>a b. f a < f b \<or> (f a = f b \<and> a < b)) (insort_key f x ys)"
      using Cons by simp
    moreover have "\<forall>z\<in>set (insort_key f x ys). f y < f z \<or> (f y = f z \<and> y < z)"
      using False Cons.prems(1) by (auto simp: set_insort_key)
    ultimately show ?thesis using False by simp
  qed
qed

lemma sort_key_lex:
  fixes f :: "nat \<Rightarrow> int"
  assumes "sorted_wrt (<) xs"
  shows "sorted_wrt (\<lambda>a b. f a < f b \<or> (f a = f b \<and> a < b)) (sort_key f xs)"
  using assms
proof (induction xs)
  case Nil
  then show ?case by simp
next
  case (Cons x xs)
  have "sorted_wrt (\<lambda>a b. f a < f b \<or> (f a = f b \<and> a < b)) (sort_key f xs)"
    using Cons by simp
  moreover have "\<forall>y\<in>set (sort_key f xs). x < y"
    using Cons.prems by simp
  ultimately show ?case
    by (simp add: sort_key_simps insort_key_lex)
qed

lemma sorted_by_id_set: "set (sorted_by_id F) = {..<length F}"
  by (auto simp: sorted_by_id_def)

lemma sorted_by_id_distinct: "distinct (sorted_by_id F)"
  by (simp add: sorted_by_id_def)

lemma sorted_by_id_length: "length (sorted_by_id F) = length F"
  by (simp add: sorted_by_id_def)

lemma sorted_by_id_before: "sorted_wrt (before F) (sorted_by_id F)"
proof -
  have "sorted_wrt (<) [0..<length F]"
    by (simp add: sorted_wrt_upt)
  from sort_key_lex[OF this, of "\<lambda>i. file_id (F ! i)"]
  show ?thesis
    unfolding sorted_by_id_def before_def .
qed

lemma take_sorted_by_id:
  assumes "k < length F"
  shows "set (take k (sorted_by_id F)) = {j. j < length F \<and> before F j (sorted_by_id F ! k)}"
proof -
  let ?ys = "sorted_by_id F"
  have len: "length ?ys = length F" by (rule sorted_by_id_length)
  have srt: "sorted_wrt (before F) ?ys" by (rule sorted_by_id_before)
  have lt: "before F (?ys ! a) (?ys ! b)" if "a < b" "b < length F" for a b
    using srt that len by (simp add: sorted_wrt_iff_nth_less)
  have asym: "\<not> (before F a b \<and> before F b a)" for a b
    by (auto simp: before_def)
  have irr: "\<not> before F a a" for a
    by (simp add: before_def)
  show ?thesis
  proof (intro set_eqI iffI)
    fix j assume "j \<in> set (take k ?ys)"
    then obtain m where m: "m < k" "j = ?ys ! m"
      using assms len by (auto simp: in_set_conv_nth)
    have "j \<in> set ?ys" using m assms len by simp
    then have "j < length F" by (simp add: sorted_by_id_set)
    then show "j \<in> {j. j < length F \<and> before F j (?ys ! k)}"
      using lt[OF m(1) assms] m(2) by simp
  next
    fix j assume "j \<in> {j. j < length F \<and> before F j (?ys ! k)}"
    then have j: "j < length F" "before F j (?ys ! k)" by simp_all
    then have "j \<in> set ?ys" by (simp add: sorted_by_id_set)
    then obtain m where m: "m < length F" "j = ?ys ! m"
      using len by (auto simp: in_set_conv_nth)
    have "m < k"
    proof (rule ccontr)
      assume "\<not> m < k"
      then consider "m = k" | "k < m" by linarith
      then show False
      proof cases
        case 1
        then show ?thesis using j(2) m(2) irr by simp
      next
        case 2
        from lt[OF 2 m(1)] j(2) m(2) asym show ?thesis by blast
      qed
    qed
    then show "j \<in> set (take k ?ys)"
      using m len by (auto simp: in_set_conv_nth)
  qed
qed

lemma length_concat_distinct:
  "distinct js \<Longrightarrow> length (concat (map g js)) = (\<Sum>j\<in>set js. length (g j))"
  by (induction js) (auto simp: )

lemma py_slice_middle:
  "py_slice (A @ P @ C) (int (length A)) (int (length A) + int (length P)) = P"
  by (simp add: py_slice_def Let_def min_def)

text \<open>What \<open>repack\<close> returns, and what it needed to return it.\<close>

lemma repack_result:
  assumes "repack zc prefix fs (dirs, F, blob, fnames, dnames) = Some (Inr b)"
  defines "pl \<equiv> \<lambda>i. payload zc dirs fnames dnames prefix fs (F ! i)"
  shows "\<exists>F' B'. b = (dirs, F', B', fnames, dnames) \<and> length F' = length F \<and>
           B' = concat (map pl (sorted_by_id F)) \<and>
           (\<forall>i<length F.
              packed zc dirs fnames dnames prefix fs (F ! i) = Some (Inr (pl i)) \<and>
              F' ! i = placed (F ! i) (int (\<Sum>j\<in>{j. j < length F \<and> before F j i}. length (pl j)))
                         (pl i))"
proof -
  let ?is = "sorted_by_id F"
  from assms(1) obtain F' off' B' where
    run: "compress_files zc dirs fnames dnames prefix fs ?is (F, 0, []) = Some (Inr (F', off', B'))"
    and b: "b = (dirs, F', B', fnames, dnames)"
    by (auto simp: repack_def split: option.splits sum.splits)
  have bound: "\<forall>i\<in>set ?is. i < length F"
    by (simp add: sorted_by_id_set)
  note res = compress_files_result[OF run sorted_by_id_distinct bound]
  have "packed zc dirs fnames dnames prefix fs (F ! i) = Some (Inr (pl i)) \<and>
        F' ! i = placed (F ! i) (int (\<Sum>j\<in>{j. j < length F \<and> before F j i}. length (pl j))) (pl i)"
    if i: "i < length F" for i
  proof -
    have "i \<in> set ?is" using i by (simp add: sorted_by_id_set)
    then obtain k where k: "k < length F" "?is ! k = i"
      by (auto simp: in_set_conv_nth sorted_by_id_length)
    have "distinct (take k ?is)"
      by (simp add: sorted_by_id_distinct)
    then have "length (concat (map pl (take k ?is))) = (\<Sum>j\<in>set (take k ?is). length (pl j))"
      by (rule length_concat_distinct)
    also have "set (take k ?is) = {j. j < length F \<and> before F j i}"
      using take_sorted_by_id[OF k(1)] k(2) by simp
    finally have off: "length (concat (map pl (take k ?is))) =
        (\<Sum>j\<in>{j. j < length F \<and> before F j i}. length (pl j))" .
    have "F' ! (?is ! k) =
        placed (F ! (?is ! k)) (0 + int (length (concat (map pl (take k ?is))))) (pl (?is ! k))"
      using res k(1) by (simp add: sorted_by_id_length pl_def)
    then have "F' ! i = placed (F ! i)
        (int (\<Sum>j\<in>{j. j < length F \<and> before F j i}. length (pl j))) (pl i)"
      unfolding k(2) off by simp
    moreover have "packed zc dirs fnames dnames prefix fs (F ! i) = Some (Inr (pl i))"
      using res \<open>i \<in> set ?is\<close> unfolding pl_def by blast
    ultimately show ?thesis by blast
  qed
  moreover have "B' = concat (map pl (sorted_by_id F))" "length F' = length F"
    using res by (simp_all add: pl_def)
  ultimately show ?thesis
    using b by blast
qed

lemma repack_slice:
  fixes pl :: "nat \<Rightarrow> bytes"
  assumes "i < length F"
  shows "py_slice (concat (map pl (sorted_by_id F)))
           (int (\<Sum>j\<in>{j. j < length F \<and> before F j i}. length (pl j)))
           (int (\<Sum>j\<in>{j. j < length F \<and> before F j i}. length (pl j)) + int (length (pl i))) =
         pl i"
proof -
  let ?is = "sorted_by_id F"
  have "i \<in> set ?is" using assms(1) by (simp add: sorted_by_id_set)
  then obtain k where k: "k < length ?is" "?is ! k = i"
    by (auto simp: in_set_conv_nth)
  have kF: "k < length F" using k(1) by (simp add: sorted_by_id_length)
  have "distinct (take k ?is)"
    by (simp add: sorted_by_id_distinct)
  then have "length (concat (map pl (take k ?is))) = (\<Sum>j\<in>set (take k ?is). length (pl j))"
    by (rule length_concat_distinct)
  also have "set (take k ?is) = {j. j < length F \<and> before F j i}"
    using take_sorted_by_id[OF kF] k(2) by simp
  finally have off: "(\<Sum>j\<in>{j. j < length F \<and> before F j i}. length (pl j)) =
      length (concat (map pl (take k ?is)))" by simp
  have "?is = take k ?is @ i # drop (Suc k) ?is"
    using id_take_nth_drop[OF k(1)] k(2) by simp
  then have "concat (map pl ?is) =
      concat (map pl (take k ?is)) @ pl i @ concat (map pl (drop (Suc k) ?is))"
    by (metis concat.simps(2) concat_append list.simps(9) map_append)
  then show ?thesis
    unfolding off by (simp only: py_slice_middle)
qed

lemma repack_length:
  fixes pl :: "nat \<Rightarrow> bytes"
  shows "length (concat (map pl (sorted_by_id F))) = (\<Sum>j<length F. length (pl j))"
  using length_concat_distinct[OF sorted_by_id_distinct, of pl F]
  by (simp add: sorted_by_id_set)

lemma bind_ok_Inr: "bind_ok r f = Inr y \<longleftrightarrow> (\<exists>x. r = Inr x \<and> f x = Inr y)"
  by (cases r) (simp_all add: bind_ok_def)

lemma bind_Some_Some: "Option.bind m (\<lambda>r. Some (g r)) = Some y \<longleftrightarrow> (\<exists>r. m = Some r \<and> g r = y)"
  by (cases m) simp_all

lemma int_to_bytes_Inr:
  "int_to_bytes v False = Inr bs \<longleftrightarrow> u32 v \<and> bs = le_bytes 4 v"
  by (auto simp: int_to_bytes_def u32_def)

lemma packed_Inr:
  assumes "packed zc dirs fnames dnames prefix fs f = Some (Inr pl)"
  shows "\<exists>p data. file_path dirs fnames dnames prefix f = Some (Inr p) \<and>
           read_bytes fs p = Inr data \<and>
           pl = (if file_type f = 2
                 then le_bytes 4 (int (length data)) @ zc data VFS_COMPRESSION_LEVEL
                 else data)"
proof -
  from assms obtain p data where
    p: "file_path dirs fnames dnames prefix f = Some (Inr p)"
    and d: "read_bytes fs p = Inr data"
    and s: "(if file_type f = 2
             then bind_ok (int_to_bytes (int (length data)) False) (\<lambda>bufsize.
                    Inr (bufsize @ zc data VFS_COMPRESSION_LEVEL))
             else Inr data) = Inr pl"
    unfolding packed_def bind_Some_Some bind_ok_Inr by blast
  have "pl = (if file_type f = 2
              then le_bytes 4 (int (length data)) @ zc data VFS_COMPRESSION_LEVEL else data)"
  proof (cases "file_type f = 2")
    case True
    then show ?thesis using s by (auto simp: bind_ok_Inr int_to_bytes_Inr)
  next
    case False
    then show ?thesis using s by simp
  qed
  then show ?thesis using p d by blast
qed

lemma write_bytes_Inr:
  assumes "write_bytes p data fs = (Inr (), fs')"
  shows "fs' = fs(p \<mapsto> File data) \<and> p_parts p \<noteq> []"
  using assms unfolding write_bytes_def node_at_def
  by (auto split: option.splits node.splits if_splits)

lemma read_bytes_written:
  "p_parts p \<noteq> [] \<Longrightarrow> read_bytes (fs(p \<mapsto> File data)) p = Inr data"
  by (simp add: read_bytes_def node_at_def)

lemma decompress_file_Inr:
  assumes "decompress_file zd dirs blob fnames dnames prefix f fs = Some (Inr (), fs')"
  shows "\<exists>d path name data fs1.
           py_index dirs (file_dir f) = Inr d \<and> build_path dirs dnames d = Some (Inr path) \<and>
           py_index fnames (file_id f) = Inr name \<and>
           (if file_type f \<noteq> 0
            then zd (drop 4 (py_slice blob (file_offset f) (file_offset f + file_size f)))
                   (int_from_bytes
                      (take 4 (py_slice blob (file_offset f) (file_offset f + file_size f)))
                      False)
            else Inr (py_slice blob (file_offset f) (file_offset f + file_size f))) = Inr data \<and>
           mkdir_p (joinpath prefix path) fs = (Inr (), fs1) \<and>
           write_bytes (joinpath prefix (path_join path name)) data fs1 = (Inr (), fs')"
proof -
  let ?s = "py_slice blob (file_offset f) (file_offset f + file_size f)"
  let ?z = "if file_type f \<noteq> 0 then zd (drop 4 ?s) (int_from_bytes (take 4 ?s) False)
            else Inr ?s"
  obtain d where d: "py_index dirs (file_dir f) = Inr d"
    using assms unfolding decompress_file_def by (cases "py_index dirs (file_dir f)") auto
  obtain r where r: "build_path dirs dnames d = Some r"
    and g: "(case r of
               Inl e \<Rightarrow> (Inl e, fs)
             | Inr path \<Rightarrow>
                 (case ?z of
                    Inl e \<Rightarrow> (Inl e, fs)
                  | Inr data' \<Rightarrow>
                      io_bind (mkdir_p (joinpath prefix path)) (\<lambda>_.
                        case py_index fnames (file_id f) of
                          Inl e \<Rightarrow> io_raise e
                        | Inr name \<Rightarrow>
                            write_bytes (joinpath prefix (path_join path name)) data')
                        fs)) = (Inr (), fs')"
    using assms unfolding decompress_file_def d sum.case Let_def bind_Some_Some by blast
  obtain path where path: "r = Inr path"
    using g by (cases r) auto
  obtain data where data: "?z = Inr data"
    using g unfolding path sum.case by (cases ?z) auto
  have "io_bind (mkdir_p (joinpath prefix path)) (\<lambda>_.
          case py_index fnames (file_id f) of
            Inl e \<Rightarrow> io_raise e
          | Inr name \<Rightarrow> write_bytes (joinpath prefix (path_join path name)) data) fs =
        (Inr (), fs')"
    using g unfolding path sum.case data .
  then obtain fs1 where m: "mkdir_p (joinpath prefix path) fs = (Inr (), fs1)"
    and w: "(case py_index fnames (file_id f) of
               Inl e \<Rightarrow> io_raise e
             | Inr name \<Rightarrow> write_bytes (joinpath prefix (path_join path name)) data) fs1 =
            (Inr (), fs')"
    unfolding io_bind_Inr by auto
  obtain name where name: "py_index fnames (file_id f) = Inr name"
    using w by (cases "py_index fnames (file_id f)") (auto simp: io_raise_def)
  have "write_bytes (joinpath prefix (path_join path name)) data fs1 = (Inr (), fs')"
    using w unfolding name sum.case .
  then show ?thesis
    using d r path name data m by blast
qed

lemma file_path_eq:
  assumes "py_index dirs (file_dir f) = Inr d" "build_path dirs dnames d = Some (Inr path)"
    "py_index fnames (file_id f) = Inr name"
  shows "file_path dirs fnames dnames prefix f =
           Some (Inr (joinpath prefix (path_join path name)))"
  by (simp add: file_path_def assms bind_ok_def)

text \<open>What \<open>repack\<close> stores for the file at index \<open>i\<close>.\<close>

lemma repack_file:
  assumes r: "repack zc prefix fs (dirs, files, blob, fnames, dnames) =
      Some (Inr (dirs', files', blob', fnames', dnames'))"
    and i: "i < length files"
  shows "\<exists>p data. file_path dirs fnames dnames prefix (files ! i) = Some (Inr p) \<and>
         read_bytes fs p = Inr data \<and>
         file_type (files' ! i) = file_type (files ! i) \<and>
         py_slice blob' (file_offset (files' ! i))
                        (file_offset (files' ! i) + file_size (files' ! i)) =
           (if file_type (files ! i) = 2
            then le_bytes 4 (int (length data)) @ zc data VFS_COMPRESSION_LEVEL
            else data)"
proof -
  let ?pl = "\<lambda>i. payload zc dirs fnames dnames prefix fs (files ! i)"
  let ?off = "int (\<Sum>j\<in>{j. j < length files \<and> before files j i}. length (?pl j))"
  from repack_result[OF r] i have
    B: "blob' = concat (map ?pl (sorted_by_id files))"
    and pk: "packed zc dirs fnames dnames prefix fs (files ! i) = Some (Inr (?pl i))"
    and F: "files' ! i = placed (files ! i) ?off (?pl i)"
    by auto
  from packed_Inr[OF pk] obtain p data where
    p: "file_path dirs fnames dnames prefix (files ! i) = Some (Inr p)"
    "read_bytes fs p = Inr data"
    and pl: "?pl i = (if file_type (files ! i) = 2
              then le_bytes 4 (int (length data)) @ zc data VFS_COMPRESSION_LEVEL else data)"
    by blast
  have s: "py_slice blob' (file_offset (files' ! i))
          (file_offset (files' ! i) + file_size (files' ! i)) = ?pl i"
    unfolding B F placed_fields by (rule repack_slice[OF i])
  have t: "file_type (files' ! i) = file_type (files ! i)"
    unfolding F by simp
  show ?thesis
    using p t s[unfolded pl] by blast
qed

lemma ex_repack:
  "repack ex_zc ex_prefix ex_fs ([ex_dir], ex_pack_files, [], [''a'', ''b''], [''d'']) =
     Some (Inr ([ex_dir], ex_packed_files, ex_packed_blob, [''a'', ''b''], [''d'']))"
  by code_simp

lemma ex_unpack_file:
  "\<exists>fs1. decompress_file ex_zd [ex_dir] ex_packed_blob [''a'', ''b''] [''d''] ex_prefix
           (ex_packed_files ! 0) Map.empty = Some (Inr (), fs1)"
proof -
  have "case decompress_file ex_zd [ex_dir] ex_packed_blob [''a'', ''b''] [''d''] ex_prefix
           (ex_packed_files ! 0) Map.empty of Some (Inr u, fs1) \<Rightarrow> True | _ \<Rightarrow> False"
    by code_simp
  then show ?thesis
    by (auto split: option.splits prod.splits sum.splits)
qed

lemma ex_zd_zc: "ex_zd (ex_zc d l) n = Inr d"
  by (simp add: ex_zd_def ex_zc_def)

lemma packed_type2_fits:
  assumes "packed zc dirs fnames dnames prefix fs f = Some (Inr pl)" "file_type f = 2"
    "file_path dirs fnames dnames prefix f = Some (Inr p)" "read_bytes fs p = Inr data"
  shows "u32 (int (length data))"
  using assms unfolding packed_def
  by (auto simp: bind_ok_Inr int_to_bytes_Inr)

lemma file_path_Inr:
  assumes "file_path dirs fnames dnames prefix f = Some (Inr p)"
  shows "\<exists>d path name. py_index dirs (file_dir f) = Inr d \<and>
           build_path dirs dnames d = Some (Inr path) \<and>
           py_index fnames (file_id f) = Inr name \<and>
           p = joinpath prefix (path_join path name)"
proof -
  obtain d where d: "py_index dirs (file_dir f) = Inr d"
    using assms unfolding file_path_def by (cases "py_index dirs (file_dir f)") auto
  from assms obtain path name where "build_path dirs dnames d = Some (Inr path)"
    "py_index fnames (file_id f) = Inr name" "p = joinpath prefix (path_join path name)"
    unfolding file_path_def d sum.case bind_Some_Some bind_ok_Inr by auto
  with d show ?thesis by blast
qed

lemma ex_dir_path: "build_path [ex_dir] [''d''] ex_dir = Some (Inr (parse_path ''d''))"
  by code_simp

section \<open>The claims on packing and unpacking\<close>

text \<open>
  Claim C3: the two directions treat the type field differently. Packing: when \<open>repack\<close>
  returns, the bytes that the new offset and size of every file record delimit in the new
  blob are the 4-byte little-endian length of the file's bytes followed by their
  compression when the type is 2, and the file's bytes themselves for every other type;
  the type is not changed. Unpacking: when one turn of the loop of \<open>decompress\<close> succeeds,
  the file written holds the slice of the blob itself when the type is 0 and, for every
  other type, what \<open>zd\<close> returns for the slice without its first 4 bytes, called with
  those 4 bytes as the buffer size.
\<close>

theorem compression_policy:
  "(repack zc prefix fs (dirs, files, blob, fnames, dnames) =
      Some (Inr (dirs', files', blob', fnames', dnames')) \<longrightarrow>
    (\<forall>i<length files.
       \<exists>p data. file_path dirs fnames dnames prefix (files ! i) = Some (Inr p) \<and>
         read_bytes fs p = Inr data \<and>
         file_type (files' ! i) = file_type (files ! i) \<and>
         py_slice blob' (file_offset (files' ! i))
                        (file_offset (files' ! i) + file_size (files' ! i)) =
           (if file_type (files ! i) = 2
            then le_bytes 4 (int (length data)) @ zc data VFS_COMPRESSION_LEVEL
            else data))) \<and>
   (decompress_file zd udirs ublob ufnames udnames uprefix f ufs = Some (Inr (), fs1) \<longrightarrow>
    (\<exists>p data. file_path udirs ufnames udnames uprefix f = Some (Inr p) \<and>
       read_bytes fs1 p = Inr data \<and>
       (if file_type f = 0
        then data = py_slice ublob (file_offset f) (file_offset f + file_size f)
        else zd (drop 4 (py_slice ublob (file_offset f) (file_offset f + file_size f)))
                (int_from_bytes
                   (take 4 (py_slice ublob (file_offset f) (file_offset f + file_size f)))
                   False) = Inr data)))"
proof (intro conjI impI allI)
  fix i
  assume "repack zc prefix fs (dirs, files, blob, fnames, dnames) =
      Some (Inr (dirs', files', blob', fnames', dnames'))" and "i < length files"
  then show "\<exists>p data. file_path dirs fnames dnames prefix (files ! i) = Some (Inr p) \<and>
         read_bytes fs p = Inr data \<and>
         file_type (files' ! i) = file_type (files ! i) \<and>
         py_slice blob' (file_offset (files' ! i))
                        (file_offset (files' ! i) + file_size (files' ! i)) =
           (if file_type (files ! i) = 2
            then le_bytes 4 (int (length data)) @ zc data VFS_COMPRESSION_LEVEL
            else data)"
    by (rule repack_file)
next
  let ?s = "py_slice ublob (file_offset f) (file_offset f + file_size f)"
  assume "decompress_file zd udirs ublob ufnames udnames uprefix f ufs = Some (Inr (), fs1)"
  from decompress_file_Inr[OF this] obtain d path name data fs0 where
    p: "py_index udirs (file_dir f) = Inr d" "build_path udirs udnames d = Some (Inr path)"
       "py_index ufnames (file_id f) = Inr name"
    and z: "(if file_type f \<noteq> 0 then zd (drop 4 ?s) (int_from_bytes (take 4 ?s) False)
             else Inr ?s) = Inr data"
    and w: "write_bytes (joinpath uprefix (path_join path name)) data fs0 = (Inr (), fs1)"
    by blast
  let ?p = "joinpath uprefix (path_join path name)"
  have fp: "file_path udirs ufnames udnames uprefix f = Some (Inr ?p)"
    by (rule file_path_eq[OF p])
  have rd: "read_bytes fs1 ?p = Inr data"
    using write_bytes_Inr[OF w] read_bytes_written by blast
  have "if file_type f = 0 then data = ?s
        else zd (drop 4 ?s) (int_from_bytes (take 4 ?s) False) = Inr data"
    using z by (cases "file_type f = 0") simp_all
  with fp rd show "\<exists>p data. file_path udirs ufnames udnames uprefix f = Some (Inr p) \<and>
       read_bytes fs1 p = Inr data \<and>
       (if file_type f = 0 then data = ?s
        else zd (drop 4 ?s) (int_from_bytes (take 4 ?s) False) = Inr data)"
    by blast
qed

theorem compression_policy_witness:
  "repack ex_zc ex_prefix ex_fs ([ex_dir], ex_pack_files, [], [''a'', ''b''], [''d'']) =
     Some (Inr ([ex_dir], ex_packed_files, ex_packed_blob, [''a'', ''b''], [''d''])) \<and>
   0 < length ex_pack_files \<and> 1 < length ex_pack_files \<and>
   (\<exists>p data. file_path [ex_dir] [''a'', ''b''] [''d''] ex_prefix (ex_pack_files ! 0) =
                  Some (Inr p) \<and>
         read_bytes ex_fs p = Inr data \<and>
         file_type (ex_packed_files ! 0) = file_type (ex_pack_files ! 0) \<and>
         py_slice ex_packed_blob (file_offset (ex_packed_files ! 0))
                  (file_offset (ex_packed_files ! 0) + file_size (ex_packed_files ! 0)) =
           (if file_type (ex_pack_files ! 0) = 2
            then le_bytes 4 (int (length data)) @ ex_zc data VFS_COMPRESSION_LEVEL
            else data)) \<and>
   (\<exists>p data. file_path [ex_dir] [''a'', ''b''] [''d''] ex_prefix (ex_pack_files ! 1) =
                  Some (Inr p) \<and>
         read_bytes ex_fs p = Inr data \<and>
         file_type (ex_packed_files ! 1) = file_type (ex_pack_files ! 1) \<and>
         py_slice ex_packed_blob (file_offset (ex_packed_files ! 1))
                  (file_offset (ex_packed_files ! 1) + file_size (ex_packed_files ! 1)) =
           (if file_type (ex_pack_files ! 1) = 2
            then le_bytes 4 (int (length data)) @ ex_zc data VFS_COMPRESSION_LEVEL
            else data)) \<and>
   (\<exists>fs1. decompress_file ex_zd [ex_dir] ex_packed_blob [''a'', ''b''] [''d''] ex_prefix
             (ex_packed_files ! 0) Map.empty = Some (Inr (), fs1) \<and>
          (\<exists>p data. file_path [ex_dir] [''a'', ''b''] [''d''] ex_prefix (ex_packed_files ! 0) =
                       Some (Inr p) \<and>
             read_bytes fs1 p = Inr data \<and>
             (if file_type (ex_packed_files ! 0) = 0
              then data = py_slice ex_packed_blob (file_offset (ex_packed_files ! 0))
                     (file_offset (ex_packed_files ! 0) + file_size (ex_packed_files ! 0))
              else ex_zd (drop 4 (py_slice ex_packed_blob (file_offset (ex_packed_files ! 0))
                            (file_offset (ex_packed_files ! 0) + file_size (ex_packed_files ! 0))))
                     (int_from_bytes
                        (take 4 (py_slice ex_packed_blob (file_offset (ex_packed_files ! 0))
                           (file_offset (ex_packed_files ! 0) + file_size (ex_packed_files ! 0))))
                        False) = Inr data)))"
proof -
  obtain fs1 where u: "decompress_file ex_zd [ex_dir] ex_packed_blob [''a'', ''b''] [''d'']
      ex_prefix (ex_packed_files ! 0) Map.empty = Some (Inr (), fs1)"
    using ex_unpack_file by blast
  have l: "0 < length ex_pack_files" "1 < length ex_pack_files"
    by (simp_all add: ex_pack_files_def)
  note t = compression_policy[where zc = ex_zc and prefix = ex_prefix and fs = ex_fs
      and dirs = "[ex_dir]" and files = ex_pack_files and blob = "[]"
      and fnames = "[''a'', ''b'']" and dnames = "[''d'']" and dirs' = "[ex_dir]"
      and files' = ex_packed_files and blob' = ex_packed_blob
      and fnames' = "[''a'', ''b'']" and dnames' = "[''d'']" and zd = ex_zd
      and udirs = "[ex_dir]" and ublob = ex_packed_blob and ufnames = "[''a'', ''b'']"
      and udnames = "[''d'']" and uprefix = ex_prefix and f = "ex_packed_files ! 0"
      and ufs = Map.empty and ?fs1.0 = fs1]
  from t ex_repack u l show ?thesis
    by blast
qed

text \<open>
  Claim C4, as stated: after packing, the offset of each file record is the sum of the
  sizes of the files with a smaller id. Two records may have the same id (they then have
  the same name). For two records of id 0 in the same directory, both of 3 bytes, the
  second gets the offset 3, and no file has a smaller id.
\<close>

theorem offsets_with_equal_ids_counterexample:
  "repack ex_zc ex_prefix ex_fs ([ex_dir], ex_same_id, [], [''a'', ''b''], [''d'']) =
     Some (Inr ([ex_dir],
       [\<lparr>file_hash = 5, file_id = 0, file_type = 0, file_dir = 0, file_offset = 0,
          file_size = 3\<rparr>,
        \<lparr>file_hash = 6, file_id = 0, file_type = 0, file_dir = 0, file_offset = 3,
          file_size = 3\<rparr>],
       [1, 2, 3, 1, 2, 3], [''a'', ''b''], [''d''])) \<and>
   sum_list (map file_size (filter (\<lambda>g. file_id g < 0)
       [\<lparr>file_hash = 5, file_id = 0, file_type = 0, file_dir = 0, file_offset = 0,
          file_size = 3\<rparr>,
        \<lparr>file_hash = 6, file_id = 0, file_type = 0, file_dir = 0, file_offset = 3,
          file_size = 3\<rparr>])) = 0"
  by code_simp

text \<open>
  Claim C4, amended: after packing, the offset of each file record is the sum of the sizes
  of the records that were processed before it, which are those with a smaller id and
  those with the same id at a smaller index of the file table (\<open>before\<close>); the length of
  the blob is the sum of all the sizes. When no two records have the same id this is the
  sum over the files with a smaller id.
\<close>

theorem offsets_after_packing:
  assumes "repack zc prefix fs (dirs, files, blob, fnames, dnames) =
      Some (Inr (dirs', files', blob', fnames', dnames'))"
  shows "length files' = length files \<and>
         (\<forall>i<length files'.
            file_id (files' ! i) = file_id (files ! i) \<and>
            file_offset (files' ! i) =
              (\<Sum>j\<in>{j. j < length files' \<and> before files' j i}. file_size (files' ! j))) \<and>
         int (length blob') = (\<Sum>j<length files'. file_size (files' ! j))"
proof -
  let ?pl = "\<lambda>i. payload zc dirs fnames dnames prefix fs (files ! i)"
  from repack_result[OF assms] have
    len: "length files' = length files"
    and B: "blob' = concat (map ?pl (sorted_by_id files))"
    and F: "\<And>i. i < length files \<Longrightarrow> files' ! i =
        placed (files ! i)
          (int (\<Sum>j\<in>{j. j < length files \<and> before files j i}. length (?pl j))) (?pl i)"
    by auto
  have ids: "file_id (files' ! i) = file_id (files ! i)" if "i < length files" for i
    using F[OF that] by simp
  have sz: "file_size (files' ! i) = int (length (?pl i))" if "i < length files" for i
    using F[OF that] by simp
  have bf: "before files' j i = before files j i" if "i < length files" "j < length files" for i j
    using ids that by (simp add: before_def)
  have off: "file_offset (files' ! i) =
      (\<Sum>j\<in>{j. j < length files' \<and> before files' j i}. file_size (files' ! j))"
    if i: "i < length files" for i
  proof -
    have "{j. j < length files' \<and> before files' j i} = {j. j < length files \<and> before files j i}"
      using bf[OF i] len by auto
    moreover have "(\<Sum>j\<in>{j. j < length files \<and> before files j i}. file_size (files' ! j)) =
        (\<Sum>j\<in>{j. j < length files \<and> before files j i}. int (length (?pl j)))"
      by (rule sum.cong) (simp_all add: sz)
    ultimately show ?thesis
      using F[OF i] by simp
  qed
  have "int (length blob') = (\<Sum>j<length files. int (length (?pl j)))"
    unfolding B repack_length by simp
  also have "\<dots> = (\<Sum>j<length files. file_size (files' ! j))"
    by (rule sum.cong) (simp_all add: sz)
  finally have tot: "int (length blob') = (\<Sum>j<length files'. file_size (files' ! j))"
    by (simp add: len)
  show ?thesis
    using len ids off tot by simp
qed

theorem offsets_after_packing_witness:
  "repack ex_zc ex_prefix ex_fs ([ex_dir], ex_pack_files, [], [''a'', ''b''], [''d'']) =
     Some (Inr ([ex_dir], ex_packed_files, ex_packed_blob, [''a'', ''b''], [''d''])) \<and>
   length ex_packed_files = length ex_pack_files \<and>
   0 < length ex_packed_files \<and> 
   file_offset (ex_packed_files ! 0) =
        (\<Sum>j\<in>{j. j < length ex_packed_files \<and> before ex_packed_files j 0}.
           file_size (ex_packed_files ! j)) \<and>
   file_offset (ex_packed_files ! 0) = 3 \<and>
   int (length ex_packed_blob) = (\<Sum>j<length ex_packed_files. file_size (ex_packed_files ! j)) \<and>
   int (length ex_packed_blob) = 11"
proof -
  have l: "0 < length ex_packed_files" "file_offset (ex_packed_files ! 0) = 3"
    "int (length ex_packed_blob) = 11"
    by (simp_all add: ex_packed_files_def ex_packed_blob_def)
  from offsets_after_packing[OF ex_repack] ex_repack l show ?thesis
    by blast
qed

text \<open>
  Claim C9: for a file record of type 2, the bytes that its new offset and size delimit
  in the new blob start with the 4-byte little-endian length of the file's bytes, which
  reads back as that length, and go on with the compression of the file's bytes. One turn
  of the loop of \<open>decompress\<close> on the new record and the new blob, for any target
  directory and in any file system, calls \<open>zd\<close> on exactly these compressed bytes with
  that length as the buffer size: it fails with the error of \<open>zd\<close> if there is one, and
  otherwise makes the directory of the file and writes there what \<open>zd\<close> returned. So when
  \<open>zd\<close> inverts \<open>zc\<close> on the file's bytes (as \<^verbatim>\<open>zlib.decompress\<close> does for
  \<^verbatim>\<open>zlib.compress\<close>), it writes the file's bytes, and when the turn succeeds the file
  it wrote holds exactly the bytes that were packed.
\<close>

theorem compressed_payload_roundtrip:
  assumes "repack zc prefix fs (dirs, files, blob, fnames, dnames) =
      Some (Inr (dirs', files', blob', fnames', dnames'))"
    and "i < length files" and "file_type (files ! i) = 2"
  shows "\<exists>d path name data.
           py_index dirs (file_dir (files ! i)) = Inr d \<and>
           build_path dirs dnames d = Some (Inr path) \<and>
           py_index fnames (file_id (files ! i)) = Inr name \<and>
           file_path dirs fnames dnames prefix (files ! i) =
             Some (Inr (joinpath prefix (path_join path name))) \<and>
           read_bytes fs (joinpath prefix (path_join path name)) = Inr data \<and>
           take 4 (py_slice blob' (file_offset (files' ! i))
                     (file_offset (files' ! i) + file_size (files' ! i))) =
             le_bytes 4 (int (length data)) \<and>
           int_from_bytes
             (take 4 (py_slice blob' (file_offset (files' ! i))
                        (file_offset (files' ! i) + file_size (files' ! i)))) False =
             int (length data) \<and>
           drop 4 (py_slice blob' (file_offset (files' ! i))
                     (file_offset (files' ! i) + file_size (files' ! i))) =
             zc data VFS_COMPRESSION_LEVEL \<and>
           decompress_file zd dirs' blob' fnames' dnames' uprefix (files' ! i) ufs =
             Some (case zd (zc data VFS_COMPRESSION_LEVEL) (int (length data)) of
                     Inl e \<Rightarrow> (Inl e, ufs)
                   | Inr data' \<Rightarrow>
                       io_bind (mkdir_p (joinpath uprefix path)) (\<lambda>_.
                         write_bytes (joinpath uprefix (path_join path name)) data') ufs) \<and>
           (zd (zc data VFS_COMPRESSION_LEVEL) (int (length data)) = Inr data \<longrightarrow>
            decompress_file zd dirs' blob' fnames' dnames' uprefix (files' ! i) ufs =
              Some (io_bind (mkdir_p (joinpath uprefix path)) (\<lambda>_.
                      write_bytes (joinpath uprefix (path_join path name)) data) ufs) \<and>
            (\<forall>ufs'. decompress_file zd dirs' blob' fnames' dnames' uprefix (files' ! i) ufs =
                      Some (Inr (), ufs') \<longrightarrow>
                    read_bytes ufs' (joinpath uprefix (path_join path name)) = Inr data))"
proof -
  let ?pl = "\<lambda>i. payload zc dirs fnames dnames prefix fs (files ! i)"
  let ?s = "py_slice blob' (file_offset (files' ! i))
              (file_offset (files' ! i) + file_size (files' ! i))"
  from repack_result[OF assms(1)] assms(2) obtain off where
    same: "dirs' = dirs" "fnames' = fnames" "dnames' = dnames"
    and pk: "packed zc dirs fnames dnames prefix fs (files ! i) = Some (Inr (?pl i))"
    and F: "files' ! i = placed (files ! i) off (?pl i)"
    by auto
  from repack_file[OF assms(1,2)] assms(3) obtain p data where
    p: "file_path dirs fnames dnames prefix (files ! i) = Some (Inr p)"
    and d: "read_bytes fs p = Inr data"
    and s: "?s = le_bytes 4 (int (length data)) @ zc data VFS_COMPRESSION_LEVEL"
    by auto
  from file_path_Inr[OF p] obtain dd path name where
    dd: "py_index dirs (file_dir (files ! i)) = Inr dd"
    and path: "build_path dirs dnames dd = Some (Inr path)"
    and name: "py_index fnames (file_id (files ! i)) = Inr name"
    and pv: "p = joinpath prefix (path_join path name)"
    by blast
  have u: "u32 (int (length data))"
    by (rule packed_type2_fits[OF pk assms(3) p d])
  have t: "take 4 ?s = le_bytes 4 (int (length data))"
    and r: "drop 4 ?s = zc data VFS_COMPRESSION_LEVEL"
    unfolding s by simp_all
  have n: "int_from_bytes (take 4 ?s) False = int (length data)"
    unfolding t using u by (simp add: int_from_bytes_unsigned u32_def)
  have fld: "file_dir (files' ! i) = file_dir (files ! i)"
    "file_id (files' ! i) = file_id (files ! i)" "file_type (files' ! i) \<noteq> 0"
    unfolding F using assms(3) by simp_all
  let ?w = "\<lambda>data'. io_bind (mkdir_p (joinpath uprefix path)) (\<lambda>_.
              write_bytes (joinpath uprefix (path_join path name)) data') ufs"
  have run: "decompress_file zd dirs' blob' fnames' dnames' uprefix (files' ! i) ufs =
      Some (case zd (zc data VFS_COMPRESSION_LEVEL) (int (length data)) of
              Inl e \<Rightarrow> (Inl e, ufs) | Inr data' \<Rightarrow> ?w data')"
    unfolding decompress_file_def same fld(1,2) dd sum.case path Let_def n r
    using fld(3)
    by (cases "zd (zc data VFS_COMPRESSION_LEVEL) (int (length data))") (simp_all add: name)
  have inv: "decompress_file zd dirs' blob' fnames' dnames' uprefix (files' ! i) ufs =
        Some (?w data) \<and>
      (\<forall>ufs'. decompress_file zd dirs' blob' fnames' dnames' uprefix (files' ! i) ufs =
                Some (Inr (), ufs') \<longrightarrow>
              read_bytes ufs' (joinpath uprefix (path_join path name)) = Inr data)"
    if z: "zd (zc data VFS_COMPRESSION_LEVEL) (int (length data)) = Inr data"
  proof (intro conjI allI impI)
    show e: "decompress_file zd dirs' blob' fnames' dnames' uprefix (files' ! i) ufs =
        Some (?w data)"
      unfolding run z by simp
    fix ufs'
    assume "decompress_file zd dirs' blob' fnames' dnames' uprefix (files' ! i) ufs =
        Some (Inr (), ufs')"
    then have "?w data = (Inr (), ufs')" unfolding e by simp
    then obtain fs1 where
      "write_bytes (joinpath uprefix (path_join path name)) data fs1 = (Inr (), ufs')"
      unfolding io_bind_Inr by auto
    from write_bytes_Inr[OF this] show
      "read_bytes ufs' (joinpath uprefix (path_join path name)) = Inr data"
      using read_bytes_written by blast
  qed
  show ?thesis
    using dd path name p[unfolded pv] d[unfolded pv] t n r run inv by blast
qed


theorem compressed_payload_roundtrip_witness:
  "repack ex_zc ex_prefix ex_fs ([ex_dir], ex_pack_files, [], [''a'', ''b''], [''d'']) =
     Some (Inr ([ex_dir], ex_packed_files, ex_packed_blob, [''a'', ''b''], [''d''])) \<and>
   0 < length ex_pack_files \<and> file_type (ex_pack_files ! 0) = 2 \<and>
   read_bytes ex_fs (joinpath ex_prefix (path_join (parse_path ''d'') ''b'')) = Inr [4, 5] \<and>
   take 4 (py_slice ex_packed_blob 3 (3 + 8)) = le_bytes 4 (int (length [4, 5 :: byte])) \<and>
   drop 4 (py_slice ex_packed_blob 3 (3 + 8)) = ex_zc [4, 5] VFS_COMPRESSION_LEVEL \<and>
   ex_zd (ex_zc [4, 5] VFS_COMPRESSION_LEVEL) (int (length [4, 5 :: byte])) = Inr [4, 5] \<and>
   (\<exists>ufs'. decompress_file ex_zd [ex_dir] ex_packed_blob [''a'', ''b''] [''d''] ex_prefix
              (ex_packed_files ! 0) Map.empty = Some (Inr (), ufs') \<and>
      read_bytes ufs' (joinpath ex_prefix (path_join (parse_path ''d'') ''b'')) = Inr [4, 5])"
proof -
  have h: "0 < length ex_pack_files" "file_type (ex_pack_files ! 0) = 2"
    by (simp_all add: ex_pack_files_def)
  have f: "file_offset (ex_packed_files ! 0) = 3" "file_size (ex_packed_files ! 0) = 8"
    by (simp_all add: ex_packed_files_def)
  have g: "file_dir (ex_pack_files ! 0) = 0" "file_id (ex_pack_files ! 0) = 1"
    by (simp_all add: ex_pack_files_def)
  have rd: "read_bytes ex_fs (joinpath ex_prefix (path_join (parse_path ''d'') ''b'')) =
      Inr [4, 5]"
    by code_simp
  obtain ufs' where u: "decompress_file ex_zd [ex_dir] ex_packed_blob [''a'', ''b''] [''d'']
      ex_prefix (ex_packed_files ! 0) Map.empty = Some (Inr (), ufs')"
    using ex_unpack_file by blast
  from compressed_payload_roundtrip[OF ex_repack h, where zd = ex_zd and uprefix = ex_prefix
      and ufs = Map.empty]
  obtain d path name data where
    d: "py_index [ex_dir] (file_dir (ex_pack_files ! 0)) = Inr d"
    and path: "build_path [ex_dir] [''d''] d = Some (Inr path)"
    and name: "py_index [''a'', ''b''] (file_id (ex_pack_files ! 0)) = Inr name"
    and data: "read_bytes ex_fs (joinpath ex_prefix (path_join path name)) = Inr data"
    and t: "take 4 (py_slice ex_packed_blob 3 (3 + 8)) = le_bytes 4 (int (length data))"
    and r: "drop 4 (py_slice ex_packed_blob 3 (3 + 8)) = ex_zc data VFS_COMPRESSION_LEVEL"
    and w: "ex_zd (ex_zc data VFS_COMPRESSION_LEVEL) (int (length data)) = Inr data \<longrightarrow>
      (\<forall>ufs'. decompress_file ex_zd [ex_dir] ex_packed_blob [''a'', ''b''] [''d''] ex_prefix
                 (ex_packed_files ! 0) Map.empty = Some (Inr (), ufs') \<longrightarrow>
               read_bytes ufs' (joinpath ex_prefix (path_join path name)) = Inr data)"
    unfolding f by blast
  have d': "d = ex_dir"
    using d unfolding g by (simp add: py_index_def)
  have path': "path = parse_path ''d''"
    using path unfolding d' ex_dir_path by simp
  have name': "name = ''b''"
    using name unfolding g by (simp add: py_index_def)
  have data': "data = [4, 5]"
    using data rd unfolding path' name' by simp
  have z: "ex_zd (ex_zc [4, 5] VFS_COMPRESSION_LEVEL) (int (length [4, 5 :: byte])) = Inr [4, 5]"
    by (rule ex_zd_zc)
  have "read_bytes ufs' (joinpath ex_prefix (path_join (parse_path ''d'') ''b'')) = Inr [4, 5]"
    using w u z unfolding path' name' data' by blast
  with u have e: "\<exists>ufs'. decompress_file ex_zd [ex_dir] ex_packed_blob [''a'', ''b''] [''d'']
      ex_prefix (ex_packed_files ! 0) Map.empty = Some (Inr (), ufs') \<and>
      read_bytes ufs' (joinpath ex_prefix (path_join (parse_path ''d'') ''b'')) = Inr [4, 5]"
    by blast
  show ?thesis
    using ex_repack h rd t[unfolded data'] r[unfolded data'] z e by (intro conjI)
qed

section \<open>Unpacking, packing and unpacking again\<close>




lemma mkdirs_keeps:
  assumes "mkdirs qs fs = (Inr (), fs')" "\<forall>q\<in>set qs. p_parts q \<noteq> []" "fs p = Some (File d)"
  shows "fs' p = Some (File d)"
  using assms
proof (induction qs arbitrary: fs)
  case Nil
  then show ?case by simp
next
  case (Cons q qs)
  have nq: "node_at fs q = fs q"
    using Cons.prems(2) by (simp add: node_at_def)
  have notfile: "\<not> (\<exists>d. fs q = Some (File d))"
    using Cons.prems(1) nq by (auto split: option.splits node.splits)
  then have "q \<noteq> p" using Cons.prems(3) by auto
  have "mkdirs qs (fs(q \<mapsto> Dir)) = (Inr (), fs')"
    using Cons.prems(1) nq by (auto split: option.splits node.splits)
  moreover have "\<forall>x\<in>set qs. p_parts x \<noteq> []"
    using Cons.prems(2) by simp
  moreover have "(fs(q \<mapsto> Dir)) p = Some (File d)"
    using \<open>q \<noteq> p\<close> Cons.prems(3) by simp
  ultimately show ?case
    by (rule Cons.IH)
qed












lemma read_bytes_File: "read_bytes fs p = Inr d \<Longrightarrow> p_parts p \<noteq> [] \<Longrightarrow> fs p = Some (File d)"
  by (auto simp: read_bytes_def node_at_def split: option.splits node.splits)












section \<open>The claim on the round trip\<close>




end
